theory Spec2Isabelle
  imports Complex_Main "HOL-Library.AList" "HOL-Library.Sublist"
begin

section \<open>Python values, objects and exceptions\<close>

text \<open>
  The exercise works on loosely typed Python data. Immutable scalars are values; a
  mutable container (a dict or a list) is an object in a store and a value only refers
  to it by its address. Dictionary keys are strings, as in a JSON document; a dict keeps
  its insertion order, so it is an association list. A float is a real number: rounding,
  the range of Python's floats, NaN and the infinities are not modelled.
\<close>

type_synonym addr = nat

datatype pyval =
    PNone
  | PBool bool
  | PInt int
  | PFloat real
  | PStr string
  | PRef addr

type_synonym dict = "(string \<times> pyval) list"

datatype obj = ODict dict | OList "pyval list"

text \<open>
  The instances of \<^verbatim>\<open>Exception\<close> that occur: the two classes the module declares,
  the built-in ones its code or the library calls can raise, and any other one raised by
  an operation handed to the module. \<^verbatim>\<open>except Exception\<close> catches each of them.
\<close>

datatype exc =
    NetworkError string
  | ConfigurationError string
  | FileNotFoundError
  | PermissionError
  | JSONDecodeError
  | AttributeError
  | KeyError string
  | ValueError string
  | TypeError string
  | ZeroDivisionError
  | OverflowError string
  | OtherException string

section \<open>retry_with_backoff\<close>

text \<open>
  The operation is a zero-argument callable with side effects: a function from the state
  it acts on to its outcome (\<open>Inl\<close> the exception raised, \<open>Inr\<close> the value returned) and
  the new state. The run records, in order, each invocation of the operation and each
  completed call of \<^verbatim>\<open>time.sleep\<close>. The logger calls have no influence on the control
  flow and are left out. \<open>base_delay\<close> and \<open>max_delay\<close> are floats, as the signature says.
\<close>

datatype effect = Invoke | Sleep real

record 'w retry_state =
  op_world :: 'w
  trace :: "effect list"

type_synonym ('w, 'a) operation = "'w \<Rightarrow> (exc + 'a) \<times> 'w"

definition invoke :: "('w, 'a) operation \<Rightarrow> 'w retry_state \<Rightarrow> (exc + 'a) \<times> 'w retry_state" where
  "invoke func s =
     (case func (op_world s) of
        (r, w') \<Rightarrow> (r, s\<lparr>op_world := w', trace := trace s @ [Invoke]\<rparr>))"

text \<open>
  \<^verbatim>\<open>time.sleep\<close> first turns the length into a signed 64-bit count of nanoseconds and
  raises OverflowError when it does not fit (a length of \<open>2 ^ 63\<close> nanoseconds, about 292
  years, or more); then it refuses a negative length with a ValueError. In both cases it
  does not sleep.
\<close>

definition sleep_limit :: real where
  "sleep_limit = 2 ^ 63 / 10 ^ 9"

definition time_sleep :: "real \<Rightarrow> 'w retry_state \<Rightarrow> (exc + unit) \<times> 'w retry_state" where
  "time_sleep delay s =
     (if delay \<le> - sleep_limit \<or> sleep_limit \<le> delay
      then (Inl (OverflowError ''timestamp out of range for platform time_t''), s)
      else if delay < 0 then (Inl (ValueError ''sleep length must be non-negative''), s)
      else (Inr (), s\<lparr>trace := trace s @ [Sleep delay]\<rparr>))"

text \<open>
  \<open>2 ** attempt\<close> is an int. The product \<open>base_delay * (2 ** attempt)\<close> with the float
  \<open>base_delay\<close> first converts it to a float: a power of two below \<open>2 ^ 1024\<close> is a float
  exactly, and from \<open>2 ^ 1024\<close> on the conversion raises OverflowError, whatever
  \<open>base_delay\<close> is. The product of a float and a power of two is exact; where it exceeds
  the largest float Python yields infinity, and the minimum with \<open>max_delay\<close> is \<open>max_delay\<close>
  then as it is here.
\<close>

definition float_of_pow2 :: "nat \<Rightarrow> exc + real" where
  "float_of_pow2 attempt =
     (if attempt < 1024 then Inr (2 ^ attempt)
      else Inl (OverflowError ''int too large to convert to float''))"

text \<open>
  The body of \<^verbatim>\<open>for attempt in range(max_attempts)\<close>, from the iteration \<open>attempt\<close> on, and
  the statements after the loop. An exception raised while the delay is computed or slept
  is raised inside the \<^verbatim>\<open>except\<close> block and leaves the function. \<^verbatim>\<open>raise last_exception\<close>
  with \<open>None\<close> (no iteration ran) is a TypeError in Python.
\<close>

function retry_loop ::
  "('w, 'a) operation \<Rightarrow> int \<Rightarrow> real \<Rightarrow> real \<Rightarrow> nat \<Rightarrow> exc option \<Rightarrow> 'w retry_state
     \<Rightarrow> (exc + 'a) \<times> 'w retry_state" where
  "retry_loop func max_attempts base_delay max_delay attempt last_exception s =
     (if int attempt < max_attempts then
        (case invoke func s of
           (Inr result, s1) \<Rightarrow> (Inr result, s1)
         | (Inl e, s1) \<Rightarrow>
             (if int attempt < max_attempts - 1 then
                (case float_of_pow2 attempt of
                   Inl e' \<Rightarrow> (Inl e', s1)
                 | Inr factor \<Rightarrow>
                     (let delay = min (base_delay * factor) max_delay in
                      case time_sleep delay s1 of
                        (Inl e', s2) \<Rightarrow> (Inl e', s2)
                      | (Inr _, s2) \<Rightarrow>
                          retry_loop func max_attempts base_delay max_delay (attempt + 1) (Some e) s2))
              else retry_loop func max_attempts base_delay max_delay (attempt + 1) (Some e) s1))
      else
        (case last_exception of
           None \<Rightarrow> (Inl (TypeError ''exceptions must derive from BaseException''), s)
         | Some e \<Rightarrow> (Inl e, s)))"
  by pat_completeness auto
termination
  by (relation "measure (\<lambda>(func, max_attempts, base_delay, max_delay, attempt, last_exception, s).
        nat (max_attempts - int attempt))") auto

declare retry_loop.simps [simp del]

definition retry_with_backoff ::
  "('w, 'a) operation \<Rightarrow> int \<Rightarrow> real \<Rightarrow> real \<Rightarrow> 'w retry_state \<Rightarrow> (exc + 'a) \<times> 'w retry_state" where
  "retry_with_backoff func max_attempts base_delay max_delay s =
     retry_loop func max_attempts base_delay max_delay 0 None s"

subsection \<open>Vocabulary of the retry claims\<close>

text \<open>
  \<open>world_after func w k\<close> is the state after \<open>k\<close> consecutive calls of the operation from
  the state \<open>w\<close>, and \<open>outcome_at func w k\<close> the outcome of the next call, call number
  \<open>k + 1\<close>. \<open>invocations\<close> and \<open>sleeps\<close> read a trace.
\<close>

fun world_after :: "('w, 'a) operation \<Rightarrow> 'w \<Rightarrow> nat \<Rightarrow> 'w" where
  "world_after func w 0 = w"
| "world_after func w (Suc k) = snd (func (world_after func w k))"

definition outcome_at :: "('w, 'a) operation \<Rightarrow> 'w \<Rightarrow> nat \<Rightarrow> exc + 'a" where
  "outcome_at func w k = fst (func (world_after func w k))"

fun invocations :: "effect list \<Rightarrow> nat" where
  "invocations [] = 0"
| "invocations (Invoke # es) = Suc (invocations es)"
| "invocations (Sleep d # es) = invocations es"

fun sleeps :: "effect list \<Rightarrow> real list" where
  "sleeps [] = []"
| "sleeps (Invoke # es) = sleeps es"
| "sleeps (Sleep d # es) = d # sleeps es"

text \<open>
  The effects of the failed attempts numbered \<open>a\<close> (0-indexed) up to, not including, \<open>k\<close>
  in a run with \<open>n\<close> attempts at most: an invocation each, followed by a sleep unless the
  attempt is the last one allowed.
\<close>

definition failed_attempts :: "int \<Rightarrow> real \<Rightarrow> real \<Rightarrow> nat \<Rightarrow> nat \<Rightarrow> effect list" where
  "failed_attempts n base_delay max_delay a k =
     concat (map (\<lambda>i. Invoke # (if int i < n - 1 then [Sleep (min (base_delay * 2 ^ i) max_delay)] else []))
       [a..<k])"

definition fresh_run :: "'w \<Rightarrow> 'w retry_state" where
  "fresh_run w = \<lparr>op_world = w, trace = []\<rparr>"


text \<open>
  Two operations to run the retry on: the always failing one of the tests, and one that
  fails twice, with a different exception each time, and then succeeds. The state of the
  second is the number of calls made so far.
\<close>

definition always_failing_func :: "(unit, string) operation" where
  "always_failing_func w = (Inl (NetworkError ''Always fails''), w)"

definition flaky_func :: "(nat, string) operation" where
  "flaky_func calls =
     (if calls = 0 then (Inl (NetworkError ''first failure''), calls + 1)
      else if calls = 1 then (Inl (NetworkError ''second failure''), calls + 1)
      else (Inr ''success'', calls + 1))"


section \<open>Dictionaries and type tests\<close>

text \<open>
  \<open>key in d\<close>, \<open>d[key]\<close> (a KeyError when the key is missing) and \<open>d.get(key)\<close> (\<open>None\<close> when
  the key is missing).
\<close>

definition dict_contains :: "string \<Rightarrow> dict \<Rightarrow> bool" where
  "dict_contains key d = (key \<in> set (map fst d))"

definition dict_getitem :: "dict \<Rightarrow> string \<Rightarrow> exc + pyval" where
  "dict_getitem d key = (case map_of d key of None \<Rightarrow> Inl (KeyError key) | Some v \<Rightarrow> Inr v)"

definition dict_get :: "dict \<Rightarrow> string \<Rightarrow> pyval" where
  "dict_get d key = (case map_of d key of None \<Rightarrow> PNone | Some v \<Rightarrow> v)"

text \<open>
  \<open>isinstance\<close> for the classes the module tests. In Python \<open>bool\<close> is a subclass of
  \<open>int\<close>: \<open>isinstance(True, int)\<close> holds, and \<open>True\<close> compares as 1, \<open>False\<close> as 0.
  \<open>num_of\<close> is the number a comparison reads; the module compares a value only behind an
  \<open>isinstance\<close> test for a number (\<open>or\<close> does not evaluate its second operand otherwise).
\<close>

fun isinstance_bool :: "pyval \<Rightarrow> bool" where
  "isinstance_bool (PBool b) = True"
| "isinstance_bool v = False"

fun isinstance_int :: "pyval \<Rightarrow> bool" where
  "isinstance_int (PInt i) = True"
| "isinstance_int (PBool b) = True"
| "isinstance_int v = False"

fun isinstance_int_float :: "pyval \<Rightarrow> bool" where
  "isinstance_int_float (PInt i) = True"
| "isinstance_int_float (PBool b) = True"
| "isinstance_int_float (PFloat x) = True"
| "isinstance_int_float v = False"

fun num_of :: "pyval \<Rightarrow> real" where
  "num_of (PInt i) = of_int i"
| "num_of (PBool b) = (if b then 1 else 0)"
| "num_of (PFloat x) = x"
| "num_of v = 0"

section \<open>ConfigManager\<close>

text \<open>
  What \<^verbatim>\<open>json.load\<close> returns is a dict for a JSON object and some other value for any
  other document (an array, a string, a number, \<open>true\<close>, \<open>false\<close>, \<open>null\<close>). The file system
  gives, for each path, the outcome of opening the file and parsing it: the exception
  raised (FileNotFoundError, PermissionError, JSONDecodeError or another one) or the
  parsed document.
\<close>

datatype json_doc = JObject dict | JOther pyval

type_synonym file_system = "string \<Rightarrow> exc + json_doc"

record config_manager =
  config_file :: string
  config :: dict
  defaults :: dict

definition DefaultSet :: dict where
  "DefaultSet =
     [(''database_url'', PStr ''sqlite:///default.db''),
      (''cache_size'', PInt 100),
      (''timeout'', PInt 30),
      (''debug'', PBool False)]"

definition validate_config :: "config_manager \<Rightarrow> string list" where
  "validate_config self =
     (let issues = [];
          cache_size = dict_get (config self) ''cache_size'';
          issues =
            (if cache_size \<noteq> PNone then
               (if \<not> isinstance_int cache_size \<or> num_of cache_size < 1
                then issues @ [''cache_size must be a positive integer''] else issues)
             else issues);
          timeout = dict_get (config self) ''timeout'';
          issues =
            (if timeout \<noteq> PNone then
               (if \<not> isinstance_int_float timeout \<or> num_of timeout \<le> 0
                then issues @ [''timeout must be a positive number''] else issues)
             else issues);
          debug = dict_get (config self) ''debug'';
          issues =
            (if debug \<noteq> PNone \<and> \<not> isinstance_bool debug
             then issues @ [''debug must be a boolean''] else issues)
      in issues)"

text \<open>
  The body of the \<^verbatim>\<open>try\<close> in \<open>_load_config\<close>: the parsed document is stored and validated
  (the issues are only logged). For a document that is no dict, \<open>self.config.get\<close> in
  \<open>validate_config\<close> raises an AttributeError. The three \<^verbatim>\<open>except\<close> clauses follow.
\<close>

definition load_config_try :: "file_system \<Rightarrow> config_manager \<Rightarrow> (exc + unit) \<times> config_manager" where
  "load_config_try fs self =
     (case fs (config_file self) of
        Inl e \<Rightarrow> (Inl e, self)
      | Inr (JObject d) \<Rightarrow>
          (let self1 = self\<lparr>config := d\<rparr>; issues = validate_config self1 in (Inr (), self1))
      | Inr (JOther v) \<Rightarrow> (Inl AttributeError, self))"

definition load_config :: "file_system \<Rightarrow> config_manager \<Rightarrow> (exc + unit) \<times> config_manager" where
  "load_config fs self =
     (case load_config_try fs self of
        (Inr u, self1) \<Rightarrow> (Inr (), self1)
      | (Inl FileNotFoundError, self1) \<Rightarrow> (Inr (), self1\<lparr>config := defaults self1\<rparr>)
      | (Inl JSONDecodeError, self1) \<Rightarrow> (Inr (), self1\<lparr>config := defaults self1\<rparr>)
      | (Inl e, self1) \<Rightarrow> (Inr (), self1\<lparr>config := defaults self1\<rparr>))"

definition ConfigManager :: "file_system \<Rightarrow> string \<Rightarrow> exc + config_manager" where
  "ConfigManager fs path =
     (let self = \<lparr>config_file = path, config = [], defaults = DefaultSet\<rparr> in
      case load_config fs self of
        (Inl e, self1) \<Rightarrow> Inl e
      | (Inr u, self1) \<Rightarrow> Inr self1)"

text \<open>
  \<open>get(key, fallback=None)\<close>: the parameter's default is \<open>None\<close>, so a call without a
  fallback is the call with \<open>PNone\<close>.
\<close>

definition get :: "config_manager \<Rightarrow> string \<Rightarrow> pyval \<Rightarrow> exc + pyval" where
  "get self key fallback =
     (if dict_contains key (config self) then dict_getitem (config self) key
      else if fallback \<noteq> PNone then Inr fallback
      else if dict_contains key (defaults self) then dict_getitem (defaults self) key
      else Inr PNone)"

text \<open>A load fails when reading or parsing raises, or when the document is no JSON object.\<close>

definition load_fails :: "file_system \<Rightarrow> string \<Rightarrow> bool" where
  "load_fails fs path = (case fs path of Inl e \<Rightarrow> True | Inr (JObject d) \<Rightarrow> False | Inr (JOther v) \<Rightarrow> True)"


subsection \<open>Vocabulary of the configuration claims\<close>

text \<open>
  The three rules as the specification words them: a positive integer, a positive number
  (integer or float), a boolean. The file system of the tests: no file under the first
  name, a file that is not JSON under the second, a JSON object under the third.
\<close>

definition positive_integer :: "pyval \<Rightarrow> bool" where
  "positive_integer v = (case v of PInt i \<Rightarrow> 0 < i | _ \<Rightarrow> False)"

definition positive_number :: "pyval \<Rightarrow> bool" where
  "positive_number v = (case v of PInt i \<Rightarrow> 0 < i | PFloat x \<Rightarrow> 0 < x | _ \<Rightarrow> False)"

definition boolean :: "pyval \<Rightarrow> bool" where
  "boolean v = (case v of PBool b \<Rightarrow> True | _ \<Rightarrow> False)"

definition test_fs :: file_system where
  "test_fs path =
     (if path = ''nonexistent_file.json'' then Inl FileNotFoundError
      else if path = ''invalid.json'' then Inl JSONDecodeError
      else if path = ''valid.json'' then
        Inr (JObject [(''database_url'', PStr ''postgresql://localhost/mydb''),
                      (''cache_size'', PInt 200), (''timeout'', PInt 60), (''debug'', PBool True)])
      else Inl FileNotFoundError)"

definition invalid_config_data :: dict where
  "invalid_config_data =
     [(''cache_size'', PInt (- 10)), (''timeout'', PStr ''30''), (''debug'', PStr ''yes'')]"

text \<open>A manager whose file held the timeout only.\<close>

definition partial_manager :: config_manager where
  "partial_manager = \<lparr>config_file = ''partial.json'', config = [(''timeout'', PInt 60)], defaults = DefaultSet\<rparr>"


section \<open>DataProcessor\<close>

text \<open>
  The processor works in a world made of the object store, the random number generator,
  the clock and the log. The store is a list of objects: an address is an index, and a
  new object is appended, so its address is fresh. \<open>random_src\<close> and \<open>clock_src\<close> are the
  successive results of \<^verbatim>\<open>random.random()\<close> and \<^verbatim>\<open>time.time()\<close>. The log keeps the records
  written inside the loop of \<open>process_data\<close>: one per item processed, one per item that
  failed, one when the processor stops early; the info records before and after the loop
  are left out.
\<close>

datatype log_event =
    ItemProcessed nat
  | ItemFailed nat exc
  | TooManyErrors int

record world =
  heap :: "obj list"
  random_src :: "nat \<Rightarrow> real"
  random_pos :: nat
  clock_src :: "nat \<Rightarrow> real"
  clock_pos :: nat
  log :: "log_event list"

record data_processor =
  dp_config :: config_manager
  cache :: dict
  error_count :: int
  max_errors :: int

definition DataProcessor :: "config_manager \<Rightarrow> data_processor" where
  "DataProcessor cfg = \<lparr>dp_config = cfg, cache = [], error_count = 0, max_errors = 5\<rparr>"

definition heap_lookup :: "world \<Rightarrow> addr \<Rightarrow> obj option" where
  "heap_lookup w a = (if a < length (heap w) then Some (heap w ! a) else None)"

text \<open>\<open>isinstance(item, dict)\<close>, giving the dict the item refers to.\<close>

definition isinstance_dict :: "world \<Rightarrow> pyval \<Rightarrow> dict option" where
  "isinstance_dict w item =
     (case item of
        PRef a \<Rightarrow> (case heap_lookup w a of Some (ODict d) \<Rightarrow> Some d | _ \<Rightarrow> None)
      | _ \<Rightarrow> None)"

text \<open>\<open>item.copy()\<close> allocates a new dict with the same entries (a shallow copy).\<close>

definition dict_copy :: "dict \<Rightarrow> world \<Rightarrow> addr \<times> world" where
  "dict_copy d w = (length (heap w), w\<lparr>heap := heap w @ [ODict d]\<rparr>)"

text \<open>\<open>d[key] = v\<close> on the dict object at an address, in place.\<close>

definition dict_setitem :: "addr \<Rightarrow> string \<Rightarrow> pyval \<Rightarrow> world \<Rightarrow> world" where
  "dict_setitem a key v w =
     (case heap_lookup w a of
        Some (ODict d) \<Rightarrow> w\<lparr>heap := (heap w)[a := ODict (AList.update key v d)]\<rparr>
      | _ \<Rightarrow> w)"

definition random_random :: "world \<Rightarrow> real \<times> world" where
  "random_random w = (random_src w (random_pos w), w\<lparr>random_pos := random_pos w + 1\<rparr>)"

definition time_time :: "world \<Rightarrow> real \<times> world" where
  "time_time w = (clock_src w (clock_pos w), w\<lparr>clock_pos := clock_pos w + 1\<rparr>)"

definition logger :: "log_event \<Rightarrow> world \<Rightarrow> world" where
  "logger ev w = w\<lparr>log := log w @ [ev]\<rparr>"

definition process_single_item :: "pyval \<Rightarrow> world \<Rightarrow> (exc + pyval) \<times> world" where
  "process_single_item item w =
     (case isinstance_dict w item of
        None \<Rightarrow> (Inl (ValueError ''Expected dict''), w)
      | Some d \<Rightarrow>
          if \<not> dict_contains ''id'' d then (Inl (ValueError ''Item missing required id field''), w)
          else
            (case random_random w of
               (r, w1) \<Rightarrow>
                 if r < 0.2 then (Inl (ValueError ''Random processing failure''), w1)
                 else
                   (case dict_copy d w1 of
                      (processed_item, w2) \<Rightarrow>
                        (case time_time w2 of
                           (t, w3) \<Rightarrow>
                             (let w4 = dict_setitem processed_item ''processed_at'' (PFloat t) w3;
                                  w5 = dict_setitem processed_item ''status'' (PStr ''processed'') w4
                              in (Inr (PRef processed_item), w5))))))"

text \<open>
  The loop of \<open>process_data\<close> over the items still to come, \<open>i\<close> the index of the next
  one. The error counter is a field of the processor and lives on after the call.
\<close>

fun process_loop ::
  "data_processor \<Rightarrow> nat \<Rightarrow> pyval list \<Rightarrow> pyval list \<Rightarrow> world
     \<Rightarrow> pyval list \<times> data_processor \<times> world" where
  "process_loop self i [] processed_items w = (processed_items, self, w)"
| "process_loop self i (item # rest) processed_items w =
     (case process_single_item item w of
        (Inr processed_item, w1) \<Rightarrow>
          process_loop self (i + 1) rest (processed_items @ [processed_item])
            (logger (ItemProcessed i) w1)
      | (Inl e, w1) \<Rightarrow>
          (let self1 = self\<lparr>error_count := error_count self + 1\<rparr>;
               w2 = logger (ItemFailed i e) w1
           in if error_count self1 \<ge> max_errors self1
              then (processed_items, self1, logger (TooManyErrors (error_count self1)) w2)
              else process_loop self1 (i + 1) rest processed_items w2))"

text \<open>
  After the loop the success rate \<open>len(processed_items) / len(data) * 100\<close> is computed for
  the log: the division raises ZeroDivisionError when \<open>data\<close> is empty.
\<close>

definition process_data ::
  "data_processor \<Rightarrow> pyval list \<Rightarrow> world \<Rightarrow> (exc + pyval list) \<times> data_processor \<times> world" where
  "process_data self data w =
     (case process_loop self 0 data [] w of
        (processed_items, self1, w1) \<Rightarrow>
          if length data = 0 then (Inl ZeroDivisionError, self1, w1)
          else (Inr processed_items, self1, w1))"

subsection \<open>Vocabulary of the processor claims\<close>

text \<open>
  An item is malformed when it is no dict or has no \<open>id\<close>. Fault injection is disabled when
  no random draw is below 0.2 (the tests patch \<open>random.random\<close> to return 0.9). The items
  attempted (their number and their indices) and the failures of a call are read off the
  log it wrote. A processed copy of
  a dict is that dict with \<open>processed_at\<close> set to a float and \<open>status\<close> set to \<open>processed\<close>.
  \<open>process_batches\<close> calls \<open>process_data\<close> on one processor for each batch in turn, the caller
  going on whatever a call returns or raises.
\<close>

definition malformed :: "world \<Rightarrow> pyval \<Rightarrow> bool" where
  "malformed w item =
     (case isinstance_dict w item of None \<Rightarrow> True | Some d \<Rightarrow> \<not> dict_contains ''id'' d)"

definition no_faults :: "world \<Rightarrow> bool" where
  "no_faults w = (\<forall>i. \<not> random_src w i < 0.2)"

definition allocated :: "world \<Rightarrow> pyval \<Rightarrow> bool" where
  "allocated w item = (case item of PRef a \<Rightarrow> a < length (heap w) | _ \<Rightarrow> True)"

fun attempted :: "log_event list \<Rightarrow> nat" where
  "attempted [] = 0"
| "attempted (ItemProcessed i # evs) = Suc (attempted evs)"
| "attempted (ItemFailed i e # evs) = Suc (attempted evs)"
| "attempted (TooManyErrors c # evs) = attempted evs"

fun failures :: "log_event list \<Rightarrow> nat" where
  "failures [] = 0"
| "failures (ItemProcessed i # evs) = failures evs"
| "failures (ItemFailed i e # evs) = Suc (failures evs)"
| "failures (TooManyErrors c # evs) = failures evs"

fun attempted_indices :: "log_event list \<Rightarrow> nat list" where
  "attempted_indices [] = []"
| "attempted_indices (ItemProcessed i # evs) = i # attempted_indices evs"
| "attempted_indices (ItemFailed i e # evs) = i # attempted_indices evs"
| "attempted_indices (TooManyErrors c # evs) = attempted_indices evs"

definition new_log :: "world \<Rightarrow> world \<Rightarrow> log_event list" where
  "new_log w w' = drop (length (log w)) (log w')"

definition processed_copy_of :: "dict \<Rightarrow> dict \<Rightarrow> bool" where
  "processed_copy_of d' d =
     (case map_of d' ''processed_at'' of
        Some (PFloat t) \<Rightarrow>
          d' = AList.update ''status'' (PStr ''processed'') (AList.update ''processed_at'' (PFloat t) d)
      | _ \<Rightarrow> False)"

text \<open>
  \<open>is_processed_copy w w' out item\<close>: the input \<open>item\<close> is a dict of the store \<open>w\<close>, and \<open>out\<close>
  is a dict allocated after \<open>w\<close> that is, in \<open>w'\<close>, a processed copy of it.
\<close>

definition is_processed_copy :: "world \<Rightarrow> world \<Rightarrow> pyval \<Rightarrow> pyval \<Rightarrow> bool" where
  "is_processed_copy w w' out item =
     (case (item, out) of
        (PRef a, PRef a') \<Rightarrow>
          (case (heap_lookup w a, heap_lookup w' a') of
             (Some (ODict d), Some (ODict d')) \<Rightarrow> length (heap w) \<le> a' \<and> processed_copy_of d' d
           | _ \<Rightarrow> False)
      | _ \<Rightarrow> False)"

text \<open>
  The outcomes of \<open>_process_single_item\<close> on the items of a batch taken one after the
  other from a world, each call in the world the one before it left. Of these outcomes
  the processor gets to see a prefix: with the counter at \<open>c\<close> and the budget \<open>m\<close>, every
  outcome up to and including the failure that brings the counter to the budget. The
  failures of a call are the failures among the outcomes it gets to see, and the failures
  of a sequence of calls are their sum, each call starting with the processor and the
  world the call before it left.
\<close>

fun item_outcomes :: "world \<Rightarrow> pyval list \<Rightarrow> (exc + pyval) list" where
  "item_outcomes w [] = []"
| "item_outcomes w (item # rest) =
     (case process_single_item item w of (r, w1) \<Rightarrow> r # item_outcomes w1 rest)"

fun attempted_outcomes :: "int \<Rightarrow> int \<Rightarrow> (exc + pyval) list \<Rightarrow> (exc + pyval) list" where
  "attempted_outcomes m c [] = []"
| "attempted_outcomes m c (Inr v # os) = Inr v # attempted_outcomes m c os"
| "attempted_outcomes m c (Inl e # os) =
     Inl e # (if c + 1 \<ge> m then [] else attempted_outcomes m (c + 1) os)"

definition call_failures :: "data_processor \<Rightarrow> pyval list \<Rightarrow> world \<Rightarrow> nat" where
  "call_failures self data w =
     length (filter isl (attempted_outcomes (max_errors self) (error_count self) (item_outcomes w data)))"

fun process_batches :: "data_processor \<Rightarrow> pyval list list \<Rightarrow> world \<Rightarrow> data_processor \<times> world" where
  "process_batches self [] w = (self, w)"
| "process_batches self (data # batches) w =
     (case process_data self data w of (r, self1, w1) \<Rightarrow> process_batches self1 batches w1)"

fun cumulative_failures :: "data_processor \<Rightarrow> pyval list list \<Rightarrow> world \<Rightarrow> nat" where
  "cumulative_failures self [] w = 0"
| "cumulative_failures self (data # batches) w =
     call_failures self data w +
     (case process_data self data w of (r, self1, w1) \<Rightarrow> cumulative_failures self1 batches w1)"

text \<open>
  The worlds of the tests: the store holds the dicts of the batch, every random draw is
  0.9, the clock reads 1000, 1001, ...
\<close>

definition test_world :: "obj list \<Rightarrow> world" where
  "test_world objs =
     \<lparr>heap = objs, random_src = (\<lambda>i. 0.9), random_pos = 0,
      clock_src = (\<lambda>i. 1000 + real i), clock_pos = 0, log = []\<rparr>"

definition test_heap :: "obj list" where
  "test_heap =
     [ODict [(''id'', PInt 1), (''name'', PStr ''Alice'')],
      ODict [(''name'', PStr ''Bob'')],
      ODict [(''id'', PInt 4), (''name'', PStr ''David'')]]"

text \<open>
  The batch of the error-recovery test (two valid items, a string, a dict without \<open>id\<close>),
  and a batch of five strings followed by a valid item.
\<close>

definition recovery_batch :: "pyval list" where
  "recovery_batch = [PRef 0, PStr ''invalid_item'', PRef 1, PRef 2]"

definition budget_batch :: "pyval list" where
  "budget_batch =
     [PStr ''a'', PStr ''b'', PStr ''c'', PStr ''d'', PStr ''e'', PRef 0]"

text \<open>
  Two calls on one processor: four strings, then a string followed by a valid item.
\<close>

definition two_calls :: "pyval list list" where
  "two_calls = [[PStr ''a'', PStr ''b'', PStr ''c'', PStr ''d''], [PStr ''e'', PRef 0]]"


section \<open>Properties\<close>

subsection \<open>The retry loop\<close>

text \<open>
  As long as the calls fail, the delays can be computed (the attempt index stays below
  1024 wherever a delay is due) and can be slept (they are not negative and stay below
  the limit of \<^verbatim>\<open>time.sleep\<close>), the loop moves from attempt \<open>a\<close> to attempt \<open>k\<close>, recording the
  effects of the failed attempts and remembering the last exception.
\<close>

lemma time_sleep_in_range:
  assumes "0 \<le> delay" "delay < sleep_limit"
  shows "time_sleep delay t = (Inr (), t\<lparr>trace := trace t @ [Sleep delay]\<rparr>)"
proof -
  have "\<not> (delay \<le> - sleep_limit \<or> sleep_limit \<le> delay)" "\<not> delay < 0"
    using assms by auto
  then show ?thesis unfolding time_sleep_def by (simp only: if_False)
qed

lemma retry_loop_failures:
  assumes "op_world s = world_after func w a"
    and "0 \<le> base_delay" "0 \<le> max_delay" "max_delay < sleep_limit"
    and "a \<le> k" "int k \<le> n" "k \<le> 1024 \<or> n \<le> 1025"
    and "\<forall>j. a \<le> j \<and> j < k \<longrightarrow> isl (outcome_at func w j)"
  shows "retry_loop func n base_delay max_delay a le s =
         retry_loop func n base_delay max_delay k
           (if a < k then Some (projl (outcome_at func w (k - 1))) else le)
           (s\<lparr>op_world := world_after func w k,
              trace := trace s @ failed_attempts n base_delay max_delay a k\<rparr>)"
  using assms(5-8)
proof (induction k)
  case 0
  have "s\<lparr>op_world := world_after func w a, trace := trace s @ []\<rparr> = s"
    using assms(1) [symmetric] by simp
  then show ?case using 0 by (simp add: failed_attempts_def)
next
  case (Suc k)
  show ?case
  proof (cases "a = Suc k")
    case True
    have "s\<lparr>op_world := world_after func w a, trace := trace s @ []\<rparr> = s"
      using assms(1) [symmetric] by simp
    then show ?thesis using True by (simp add: failed_attempts_def del: world_after.simps)
  next
    case False
    then have ak: "a \<le> k" using Suc.prems by simp
    have kn: "int k < n" using Suc.prems by simp
    have range: "k \<le> 1024 \<or> n \<le> 1025" using Suc.prems by auto
    have fails: "isl (outcome_at func w k)" using Suc.prems ak by simp
    then obtain e where e: "outcome_at func w k = Inl e" by (cases "outcome_at func w k") auto
    obtain w' where fw: "func (world_after func w k) = (Inl e, w')"
      using e by (cases "func (world_after func w k)") (simp add: outcome_at_def)
    have w': "world_after func w (Suc k) = w'" using fw by simp
    have d: "0 \<le> min (base_delay * 2 ^ k) max_delay" using assms(2,3) by simp
    have d': "min (base_delay * 2 ^ k) max_delay < sleep_limit" using assms(4) by simp
    have IH: "retry_loop func n base_delay max_delay a le s =
         retry_loop func n base_delay max_delay k
           (if a < k then Some (projl (outcome_at func w (k - 1))) else le)
           (s\<lparr>op_world := world_after func w k,
              trace := trace s @ failed_attempts n base_delay max_delay a k\<rparr>)"
      using Suc.IH Suc.prems ak range by simp
    have fa: "failed_attempts n base_delay max_delay a (Suc k) =
        failed_attempts n base_delay max_delay a k @
          Invoke # (if int k < n - 1 then [Sleep (min (base_delay * 2 ^ k) max_delay)] else [])"
      using ak by (simp add: failed_attempts_def)
    note sl = time_sleep_in_range [OF d d']
    show ?thesis
    proof (cases "int k < n - 1")
      case True
      then have "k < 1024" using Suc.prems(3) by auto
      then have fp: "float_of_pow2 k = Inr (2 ^ k)" by (simp add: float_of_pow2_def)
      show ?thesis
        apply (subst IH)
        apply (subst retry_loop.simps)
        using kn fw ak e True
        apply (simp add: invoke_def sl fp fa w' Let_def del: world_after.simps)
        done
    next
      case False
      show ?thesis
        apply (subst IH)
        apply (subst retry_loop.simps)
        using kn fw ak e False
        apply (simp add: invoke_def fa w' Let_def del: world_after.simps)
        done
    qed
  qed
qed

lemma invocations_append: "invocations (xs @ ys) = invocations xs + invocations ys"
  by (induction xs rule: invocations.induct) auto

lemma sleeps_append: "sleeps (xs @ ys) = sleeps xs @ sleeps ys"
  by (induction xs rule: sleeps.induct) auto

lemma failed_attempts_Suc:
  "a \<le> k \<Longrightarrow> failed_attempts n b m a (Suc k) =
     failed_attempts n b m a k @ Invoke # (if int k < n - 1 then [Sleep (min (b * 2 ^ k) m)] else [])"
  by (simp add: failed_attempts_def)

lemma invocations_failed_attempts: "a \<le> k \<Longrightarrow> invocations (failed_attempts n b m a k) = k - a"
proof (induction k)
  case 0
  then show ?case by (simp add: failed_attempts_def)
next
  case (Suc k)
  show ?case
  proof (cases "a = Suc k")
    case True
    then show ?thesis by (simp add: failed_attempts_def)
  next
    case False
    then have "a \<le> k" using Suc.prems by simp
    then show ?thesis using Suc.IH by (simp add: failed_attempts_Suc invocations_append)
  qed
qed

lemma sleeps_failed_attempts:
  "int k \<le> n - 1 \<Longrightarrow> sleeps (failed_attempts n b m 0 k) = map (\<lambda>i. min (b * 2 ^ i) m) [0..<k]"
proof (induction k)
  case 0
  then show ?case by (simp add: failed_attempts_def)
next
  case (Suc k)
  then show ?case by (simp add: failed_attempts_Suc sleeps_append)
qed

lemma length_sleeps_failed_attempts:
  "int k \<le> n - 1 \<Longrightarrow> length (sleeps (failed_attempts n b m 0 k)) = k"
  by (simp add: sleeps_failed_attempts)

lemma retry_all_fail:
  assumes "1 \<le> n" "n \<le> 1025" "0 \<le> base_delay" "0 \<le> max_delay" "max_delay < sleep_limit"
    and "\<forall>j<nat n. isl (outcome_at func w j)"
  shows "retry_with_backoff func n base_delay max_delay (fresh_run w) =
           (Inl (projl (outcome_at func w (nat n - 1))),
            \<lparr>op_world = world_after func w (nat n),
             trace = failed_attempts n base_delay max_delay 0 (nat n)\<rparr>)"
proof -
  have "retry_with_backoff func n base_delay max_delay (fresh_run w) =
        retry_loop func n base_delay max_delay (nat n)
           (if 0 < nat n then Some (projl (outcome_at func w (nat n - 1))) else None)
           ((fresh_run w)\<lparr>op_world := world_after func w (nat n),
              trace := trace (fresh_run w) @ failed_attempts n base_delay max_delay 0 (nat n)\<rparr>)"
    unfolding retry_with_backoff_def
    by (rule retry_loop_failures) (use assms in \<open>simp_all add: fresh_run_def\<close>)
  then show ?thesis
    using assms(1) by (simp add: retry_loop.simps [of _ _ _ _ "nat n"] fresh_run_def)
qed

lemma retry_success_at:
  assumes "0 \<le> base_delay" "0 \<le> max_delay" "max_delay < sleep_limit"
    and "int k < n" "k \<le> 1024"
    and "\<forall>j<k. isl (outcome_at func w j)"
    and "outcome_at func w k = Inr v"
  shows "retry_with_backoff func n base_delay max_delay (fresh_run w) =
           (Inr v,
            \<lparr>op_world = world_after func w (Suc k),
             trace = failed_attempts n base_delay max_delay 0 k @ [Invoke]\<rparr>)"
proof -
  have "retry_with_backoff func n base_delay max_delay (fresh_run w) =
        retry_loop func n base_delay max_delay k
           (if 0 < k then Some (projl (outcome_at func w (k - 1))) else None)
           ((fresh_run w)\<lparr>op_world := world_after func w k,
              trace := trace (fresh_run w) @ failed_attempts n base_delay max_delay 0 k\<rparr>)"
    unfolding retry_with_backoff_def
    by (rule retry_loop_failures) (use assms in \<open>simp_all add: fresh_run_def\<close>)
  moreover obtain w' where "func (world_after func w k) = (Inr v, w')"
    using assms(7) by (cases "func (world_after func w k)") (simp add: outcome_at_def)
  ultimately show ?thesis
    using assms(4) by (simp add: retry_loop.simps [of _ _ _ _ k] fresh_run_def invoke_def)
qed

text \<open>
  With 1026 attempts or more allowed and an operation that fails on each of the first
  1025 calls, the delay after call 1025 cannot be computed: the OverflowError of the
  conversion leaves the function.
\<close>

lemma retry_overflow:
  assumes "1026 \<le> n" "0 \<le> base_delay" "0 \<le> max_delay" "max_delay < sleep_limit"
    and "\<forall>j<Suc 1024. isl (outcome_at func w j)"
  shows "retry_with_backoff func n base_delay max_delay (fresh_run w) =
           (Inl (OverflowError ''int too large to convert to float''),
            \<lparr>op_world = world_after func w (Suc 1024),
             trace = failed_attempts n base_delay max_delay 0 1024 @ [Invoke]\<rparr>)"
proof -
  define k :: nat where "k = 1024"
  have k: "int k \<le> n" "k \<le> 1024 \<or> n \<le> 1025" "int k < n" "int k < n - 1" "\<not> k < 1024"
    using assms(1) by (simp_all add: k_def)
  have fp: "float_of_pow2 k = Inl (OverflowError ''int too large to convert to float'')"
    by (simp add: float_of_pow2_def k_def)
  have fails: "\<forall>j. 0 \<le> j \<and> j < k \<longrightarrow> isl (outcome_at func w j)"
    using assms(5) by (simp add: k_def)
  have "isl (outcome_at func w k)" using assms(5) by (simp add: k_def)
  then obtain e where "outcome_at func w k = Inl e" by (cases "outcome_at func w k") auto
  then obtain w' where fw: "func (world_after func w k) = (Inl e, w')"
    by (cases "func (world_after func w k)") (simp add: outcome_at_def)
  have "retry_with_backoff func n base_delay max_delay (fresh_run w) =
        retry_loop func n base_delay max_delay k
           (if 0 < k then Some (projl (outcome_at func w (k - 1))) else None)
           ((fresh_run w)\<lparr>op_world := world_after func w k,
              trace := trace (fresh_run w) @ failed_attempts n base_delay max_delay 0 k\<rparr>)"
    unfolding retry_with_backoff_def
    by (rule retry_loop_failures) (use assms(2-4) k fails in \<open>simp_all add: fresh_run_def\<close>)
  then have "retry_with_backoff func n base_delay max_delay (fresh_run w) =
           (Inl (OverflowError ''int too large to convert to float''),
            \<lparr>op_world = world_after func w (Suc k),
             trace = failed_attempts n base_delay max_delay 0 k @ [Invoke]\<rparr>)"
    using k(3,4) fw fp
    by (simp add: retry_loop.simps [of _ _ _ _ k] fresh_run_def invoke_def)
  then show ?thesis by (simp only: k_def)
qed

lemma failed_attempts_shape:
  "int k \<le> n - 1 \<Longrightarrow>
     length (failed_attempts n b m 0 k) = 2 * k \<and>
     (\<forall>i<k. failed_attempts n b m 0 k ! (2 * i) = Invoke \<and>
            failed_attempts n b m 0 k ! (2 * i + 1) = Sleep (min (b * 2 ^ i) m))"
proof (induction k)
  case 0
  then show ?case by (simp add: failed_attempts_def)
next
  case (Suc k)
  then have IH: "length (failed_attempts n b m 0 k) = 2 * k"
    "\<And>i. i < k \<Longrightarrow> failed_attempts n b m 0 k ! (2 * i) = Invoke \<and>
            failed_attempts n b m 0 k ! (2 * i + 1) = Sleep (min (b * 2 ^ i) m)"
    by simp_all
  have kn: "int k < n - 1" using Suc.prems by simp
  have eq: "failed_attempts n b m 0 (Suc k) =
      failed_attempts n b m 0 k @ [Invoke, Sleep (min (b * 2 ^ k) m)]"
    using kn by (simp add: failed_attempts_Suc)
  show ?case
  proof (intro conjI allI impI)
    show "length (failed_attempts n b m 0 (Suc k)) = 2 * Suc k"
      by (simp add: eq IH(1))
  next
    fix i assume "i < Suc k"
    then consider "i < k" | "i = k" by linarith
    then show "failed_attempts n b m 0 (Suc k) ! (2 * i) = Invoke"
    proof cases
      case 1
      then show ?thesis using IH(2) [OF 1] by (simp add: eq nth_append IH(1))
    next
      case 2
      then show ?thesis by (simp add: eq nth_append IH(1))
    qed
  next
    fix i assume "i < Suc k"
    then consider "i < k" | "i = k" by linarith
    then show "failed_attempts n b m 0 (Suc k) ! (2 * i + 1) = Sleep (min (b * 2 ^ i) m)"
    proof cases
      case 1
      then show ?thesis using IH(2) [OF 1] by (simp add: eq nth_append IH(1))
    next
      case 2
      then show ?thesis by (simp add: eq nth_append IH(1))
    qed
  qed
qed

subsection \<open>Runs within the range of the delays\<close>

text \<open>
  What \<open>retry_with_backoff\<close> does as long as every delay can be computed and slept:
  \<open>max_attempts\<close> from 1 to 1025 (or a first success not later than call 1025), and
  delays that are not negative and below the limit of \<^verbatim>\<open>time.sleep\<close>. An operation that
  fails on each of the \<open>n\<close> calls is invoked exactly \<open>n\<close> times and the exception of call \<open>n\<close>
  is raised; a first success on call \<open>k\<close> gives exactly \<open>k\<close> invocations, the value of
  call \<open>k\<close>, and no sleep after it.
\<close>

lemma retry_attempts_in_range:
  assumes "1 \<le> n" "0 \<le> base_delay" "0 \<le> max_delay" "max_delay < sleep_limit"
  shows "(n \<le> 1025 \<and> (\<forall>j<nat n. isl (outcome_at func w j)) \<longrightarrow>
            (case retry_with_backoff func n base_delay max_delay (fresh_run w) of
               (r, s') \<Rightarrow>
                 r = Inl (projl (outcome_at func w (nat n - 1))) \<and>
                 invocations (trace s') = nat n \<and>
                 op_world s' = world_after func w (nat n)))
       \<and> (\<forall>k v. 1 \<le> k \<and> int k \<le> n \<and> k \<le> 1025 \<and> (\<forall>j<k - 1. isl (outcome_at func w j)) \<and>
                 outcome_at func w (k - 1) = Inr v \<longrightarrow>
            (case retry_with_backoff func n base_delay max_delay (fresh_run w) of
               (r, s') \<Rightarrow>
                 r = Inr v \<and>
                 invocations (trace s') = k \<and>
                 op_world s' = world_after func w k \<and>
                 last (trace s') = Invoke \<and>
                 length (sleeps (trace s')) = k - 1))"
proof (intro conjI impI allI)
  assume "n \<le> 1025 \<and> (\<forall>j<nat n. isl (outcome_at func w j))"
  then have "n \<le> 1025" "\<forall>j<nat n. isl (outcome_at func w j)" by simp_all
  from retry_all_fail [OF assms(1) this(1) assms(2-4) this(2)]
  show "case retry_with_backoff func n base_delay max_delay (fresh_run w) of
          (r, s') \<Rightarrow>
            r = Inl (projl (outcome_at func w (nat n - 1))) \<and>
            invocations (trace s') = nat n \<and>
            op_world s' = world_after func w (nat n)"
    by (simp add: invocations_failed_attempts)
next
  fix k v
  assume h: "1 \<le> k \<and> int k \<le> n \<and> k \<le> 1025 \<and> (\<forall>j<k - 1. isl (outcome_at func w j)) \<and>
             outcome_at func w (k - 1) = Inr v"
  then have k: "int (k - 1) < n" "Suc (k - 1) = k" "int (k - 1) \<le> n - 1" "k - 1 \<le> 1024"
    by auto
  from h have "\<forall>j<k - 1. isl (outcome_at func w j)" "outcome_at func w (k - 1) = Inr v"
    by simp_all
  from retry_success_at [OF assms(2-4) k(1) k(4) this]
  show "case retry_with_backoff func n base_delay max_delay (fresh_run w) of
          (r, s') \<Rightarrow>
            r = Inr v \<and>
            invocations (trace s') = k \<and>
            op_world s' = world_after func w k \<and>
            last (trace s') = Invoke \<and>
            length (sleeps (trace s')) = k - 1"
    using k(2) sleeps_failed_attempts [OF k(3), of base_delay max_delay] h
    by (simp add: invocations_failed_attempts invocations_append sleeps_append
        del: world_after.simps)
qed

text \<open>
  In the same range, against an operation that fails on each of the \<open>n\<close> calls: exactly
  \<open>n - 1\<close> sleeps, sleep number \<open>i\<close> (from 0) between the attempts \<open>i + 1\<close> and \<open>i + 2\<close> and of
  length \<open>min (base_delay * 2 ^ i) max_delay\<close>, none after the last attempt; with \<open>n = 3\<close>,
  \<open>base_delay = 1.0\<close> and \<open>max_delay = 60.0\<close> the sleeps are 1.0 then 2.0.
\<close>

lemma retry_delays_in_range:
  assumes "1 \<le> n" "n \<le> 1025" "0 \<le> base_delay" "0 \<le> max_delay" "max_delay < sleep_limit"
    and "\<forall>j<nat n. isl (outcome_at func w j)"
  shows "case retry_with_backoff func n base_delay max_delay (fresh_run w) of
           (r, s') \<Rightarrow>
             length (sleeps (trace s')) = nat n - 1 \<and>
             (\<forall>i<nat n - 1. sleeps (trace s') ! i = min (base_delay * 2 ^ i) max_delay) \<and>
             length (trace s') = 2 * nat n - 1 \<and>
             (\<forall>i<nat n - 1. trace s' ! (2 * i) = Invoke \<and>
                trace s' ! (2 * i + 1) = Sleep (min (base_delay * 2 ^ i) max_delay)) \<and>
             last (trace s') = Invoke \<and>
             (n = 3 \<and> base_delay = 1 \<and> max_delay = 60 \<longrightarrow> sleeps (trace s') = [1, 2])"
proof -
  obtain k where k: "nat n = Suc k" "int k = n - 1" "int k \<le> n - 1"
    using assms(1) by (cases "nat n") auto
  define T where "T = failed_attempts n base_delay max_delay 0 k"
  have tr: "failed_attempts n base_delay max_delay 0 (nat n) = T @ [Invoke]"
    using k by (simp add: failed_attempts_Suc T_def)
  have len: "length T = 2 * k"
    and pos: "\<And>i. i < k \<Longrightarrow> T ! (2 * i) = Invoke \<and> T ! (2 * i + 1) = Sleep (min (base_delay * 2 ^ i) max_delay)"
    using failed_attempts_shape [OF k(3), of base_delay max_delay] by (simp_all add: T_def)
  have sl: "sleeps (T @ [Invoke]) = map (\<lambda>i. min (base_delay * 2 ^ i) max_delay) [0..<k]"
    using sleeps_failed_attempts [OF k(3), of base_delay max_delay] by (simp add: sleeps_append T_def)
  have three: "n = 3 \<and> base_delay = 1 \<and> max_delay = 60 \<longrightarrow> sleeps (T @ [Invoke]) = [1, 2]"
  proof
    assume a: "n = 3 \<and> base_delay = 1 \<and> max_delay = 60"
    then have "k = Suc (Suc 0)" using k(2) by simp
    then show "sleeps (T @ [Invoke]) = [1, 2]"
      using a by (simp add: sl)
  qed
  have pos': "\<forall>i<nat n - 1. (T @ [Invoke]) ! (2 * i) = Invoke \<and>
      (T @ [Invoke]) ! (2 * i + 1) = Sleep (min (base_delay * 2 ^ i) max_delay)"
    using pos by (simp add: nth_append len k(1))
  have res: "retry_with_backoff func n base_delay max_delay (fresh_run w) =
      (Inl (projl (outcome_at func w (nat n - 1))),
       \<lparr>op_world = world_after func w (nat n), trace = T @ [Invoke]\<rparr>)"
    using retry_all_fail [OF assms] by (simp only: tr)
  have c1: "length (sleeps (T @ [Invoke])) = nat n - 1" by (simp add: sl k(1))
  have c2: "\<forall>i<nat n - 1. sleeps (T @ [Invoke]) ! i = min (base_delay * 2 ^ i) max_delay"
    by (simp add: sl k(1))
  have c3: "length (T @ [Invoke]) = 2 * nat n - 1" by (simp add: len k(1))
  have c5: "last (T @ [Invoke]) = Invoke" by simp
  show ?thesis
    unfolding res using c1 c2 c3 pos' c5 three by simp
qed

text \<open>
  Two runs of the operation that fails twice: with two attempts the second exception is
  raised after two invocations; with five attempts the third call succeeds and ends the
  run.
\<close>

lemma retry_attempts_example:
  "(case retry_with_backoff flaky_func 2 1 60 (fresh_run 0) of
      (r, s') \<Rightarrow> r = Inl (NetworkError ''second failure'') \<and> invocations (trace s') = 2) \<and>
   (case retry_with_backoff flaky_func 5 1 60 (fresh_run 0) of
      (r, s') \<Rightarrow> r = Inr ''success'' \<and> invocations (trace s') = 3 \<and> last (trace s') = Invoke)"
proof -
  have o: "outcome_at flaky_func 0 0 = Inl (NetworkError ''first failure'')"
    "outcome_at flaky_func 0 (Suc 0) = Inl (NetworkError ''second failure'')"
    "outcome_at flaky_func 0 (Suc (Suc 0)) = Inr ''success''"
    by (simp_all add: outcome_at_def flaky_func_def)
  have a: "(2::int) \<le> 1025 \<and> (\<forall>j<nat 2. isl (outcome_at flaky_func 0 j))"
    by (simp add: eval_nat_numeral All_less_Suc o)
  have b: "1 \<le> (3::nat) \<and> int 3 \<le> 5 \<and> (3::nat) \<le> 1025 \<and>
        (\<forall>j<3 - 1. isl (outcome_at flaky_func 0 j)) \<and>
        outcome_at flaky_func 0 (3 - 1) = Inr ''success''"
    by (simp add: eval_nat_numeral All_less_Suc o)
  have c: "(60::real) < sleep_limit" by (simp add: sleep_limit_def)
  show ?thesis
    using retry_attempts_in_range [of 2 1 60 flaky_func 0, THEN conjunct1]
      retry_attempts_in_range [of 5 1 60 flaky_func 0, THEN conjunct2,
        THEN spec [of _ 3], THEN spec [of _ "''success''"]]
      a b c
    by (simp add: o eval_nat_numeral split: prod.splits)
qed

text \<open>The run of the timing test: three attempts, sleeps of 1.0 and 2.0, five effects.\<close>

lemma retry_delays_example:
  "case retry_with_backoff always_failing_func 3 1 60 (fresh_run ()) of
      (r, s') \<Rightarrow> sleeps (trace s') = [1, 2] \<and> length (trace s') = 5 \<and> last (trace s') = Invoke"
proof -
  have a: "\<forall>j<nat 3. isl (outcome_at always_failing_func () j)"
    by (simp add: outcome_at_def always_failing_func_def)
  have b: "(60::real) < sleep_limit" by (simp add: sleep_limit_def)
  show ?thesis
    using retry_delays_in_range [of 3 1 60 always_failing_func "()"] a b
    by (simp split: prod.splits)
qed

subsection \<open>The overflow of the delay\<close>

text \<open>
  Claim C1 says that for every \<open>max_attempts = n \<ge> 1\<close> an operation that fails on every call
  is invoked exactly \<open>n\<close> times and that the exception of the last attempt is the one
  raised, as the docstring of \<open>retry_with_backoff\<close> does (the last exception if all
  attempts fail). C1, at the failing input \<open>max_attempts = 1026\<close> with the default delays
  1.0 and 60.0 and the always failing operation of the tests: the operation is invoked
  1025 times, not 1026, and the exception raised is the OverflowError of
  \<open>base_delay * (2 ** 1024)\<close>, not the NetworkError of the operation.
\<close>

theorem retry_with_backoff_overflow_attempts:
  "case retry_with_backoff always_failing_func 1026 1 60 (fresh_run ()) of
     (r, s') \<Rightarrow>
        r = Inl (OverflowError ''int too large to convert to float'') \<and>
        r \<noteq> Inl (NetworkError ''Always fails'') \<and>
        invocations (trace s') = 1025"
proof -
  have a: "\<forall>j<Suc 1024. isl (outcome_at always_failing_func () j)"
    by (simp add: outcome_at_def always_failing_func_def)
  have b: "(60::real) < sleep_limit" by (simp add: sleep_limit_def)
  have "retry_with_backoff always_failing_func 1026 1 60 (fresh_run ()) =
           (Inl (OverflowError ''int too large to convert to float''),
            \<lparr>op_world = world_after always_failing_func () (Suc 1024),
             trace = failed_attempts 1026 1 60 0 1024 @ [Invoke]\<rparr>)"
    by (rule retry_overflow) (use a b in simp_all)
  moreover have "invocations (failed_attempts 1026 1 60 0 1024 @ [Invoke]) = 1025"
    using invocations_failed_attempts [of 0 1024 1026 1 60] by (simp add: invocations_append)
  ultimately show ?thesis by simp
qed

text \<open>
  Claim C2 says that for every run with \<open>max_attempts = n\<close> against an operation that always
  fails exactly \<open>n - 1\<close> sleeps occur, the delay before attempt \<open>i + 2\<close> being
  \<open>min (base_delay * 2 ^ i) max_delay\<close>, and none after the final attempt. C2, at the same
  failing input (\<open>max_attempts = 1026\<close>, delays 1.0 and 60.0): 1024 sleeps occur, not 1025;
  the delay before attempt 1026 is never computed, the OverflowError of
  \<open>base_delay * (2 ** 1024)\<close> ends the run, and attempt 1026 is not made.
\<close>

theorem retry_with_backoff_overflow_delays:
  "case retry_with_backoff always_failing_func 1026 1 60 (fresh_run ()) of
     (r, s') \<Rightarrow>
        length (sleeps (trace s')) = 1024 \<and>
        length (sleeps (trace s')) \<noteq> nat 1026 - 1 \<and>
        last (trace s') = Invoke \<and>
        r = Inl (OverflowError ''int too large to convert to float'')"
proof -
  have a: "\<forall>j<Suc 1024. isl (outcome_at always_failing_func () j)"
    by (simp add: outcome_at_def always_failing_func_def)
  have b: "(60::real) < sleep_limit" by (simp add: sleep_limit_def)
  have "retry_with_backoff always_failing_func 1026 1 60 (fresh_run ()) =
           (Inl (OverflowError ''int too large to convert to float''),
            \<lparr>op_world = world_after always_failing_func () (Suc 1024),
             trace = failed_attempts 1026 1 60 0 1024 @ [Invoke]\<rparr>)"
    by (rule retry_overflow) (use a b in simp_all)
  moreover have "length (sleeps (failed_attempts 1026 1 60 0 1024 @ [Invoke])) = 1024"
    using length_sleeps_failed_attempts [of 1024 1026 1 60] by (simp add: sleeps_append)
  ultimately show ?thesis by simp
qed

subsection \<open>ConfigManager\<close>

lemma dict_contains_iff: "dict_contains key d \<longleftrightarrow> map_of d key \<noteq> None"
  by (simp add: dict_contains_def map_of_eq_None_iff)

lemma load_config_result:
  "load_config fs self =
     (Inr (), (case fs (config_file self) of
                 Inr (JObject d) \<Rightarrow> self\<lparr>config := d\<rparr>
               | _ \<Rightarrow> self\<lparr>config := defaults self\<rparr>))"
  by (simp add: load_config_def load_config_try_def Let_def split: sum.splits json_doc.splits exc.splits)

lemma ConfigManager_result:
  "ConfigManager fs path =
     Inr (case fs path of
            Inr (JObject d) \<Rightarrow> \<lparr>config_file = path, config = d, defaults = DefaultSet\<rparr>
          | _ \<Rightarrow> \<lparr>config_file = path, config = DefaultSet, defaults = DefaultSet\<rparr>)"
  by (simp add: ConfigManager_def load_config_result Let_def split: sum.splits json_doc.splits)

lemma ConfigManager_load_fails:
  "load_fails fs path \<Longrightarrow>
     ConfigManager fs path = Inr \<lparr>config_file = path, config = DefaultSet, defaults = DefaultSet\<rparr>"
  by (simp add: ConfigManager_result load_fails_def split: sum.splits json_doc.splits)

lemma get_present: "map_of (config self) key = Some v \<Longrightarrow> get self key fallback = Inr v"
  by (simp add: get_def dict_contains_iff dict_getitem_def)

lemma get_absent:
  "map_of (config self) key = None \<Longrightarrow>
     get self key fallback =
       (if fallback \<noteq> PNone then Inr fallback
        else case map_of (defaults self) key of Some v \<Rightarrow> Inr v | None \<Rightarrow> Inr PNone)"
  by (simp add: get_def dict_contains_iff dict_getitem_def split: option.splits)

text \<open>
  Claim C3. For every file system and path, constructing a ConfigManager returns a
  manager and raises nothing. When the load fails (the file is missing, its content is
  not JSON, any other exception is raised, or the document is no JSON object) the active
  configuration is the DefaultSet, so \<open>get\<close> returns the built-in default for every default
  key; a manager built from a missing file and one built from invalid content have the
  same configuration, the same validation result and the same answers to \<open>get\<close>.
\<close>

theorem ConfigManager_never_fails:
  "(\<exists>m. ConfigManager fs path = Inr m) \<and>
   (load_fails fs path \<longrightarrow>
      ConfigManager fs path =
        Inr \<lparr>config_file = path, config = DefaultSet, defaults = DefaultSet\<rparr>) \<and>
   (\<forall>m k v fallback.
      load_fails fs path \<and> ConfigManager fs path = Inr m \<and> map_of DefaultSet k = Some v \<longrightarrow>
        get m k fallback = Inr v) \<and>
   (\<forall>path' m m'.
      fs path = Inl FileNotFoundError \<and> fs path' = Inl JSONDecodeError \<and>
      ConfigManager fs path = Inr m \<and> ConfigManager fs path' = Inr m' \<longrightarrow>
        config m = DefaultSet \<and> config m' = DefaultSet \<and> defaults m' = defaults m \<and>
        validate_config m' = validate_config m \<and>
        (\<forall>k fallback. get m' k fallback = get m k fallback))"
proof (intro conjI allI impI)
  show "\<exists>m. ConfigManager fs path = Inr m"
    by (simp add: ConfigManager_result)
next
  assume "load_fails fs path"
  then show "ConfigManager fs path =
      Inr \<lparr>config_file = path, config = DefaultSet, defaults = DefaultSet\<rparr>"
    by (rule ConfigManager_load_fails)
next
  fix m k v fallback
  assume h: "load_fails fs path \<and> ConfigManager fs path = Inr m \<and> map_of DefaultSet k = Some v"
  then have "config m = DefaultSet" using ConfigManager_load_fails [of fs path] by auto
  then show "get m k fallback = Inr v" using h by (simp add: get_present)
next
  fix path' m m'
  assume h: "fs path = Inl FileNotFoundError \<and> fs path' = Inl JSONDecodeError \<and>
      ConfigManager fs path = Inr m \<and> ConfigManager fs path' = Inr m'"
  then have m: "m = \<lparr>config_file = path, config = DefaultSet, defaults = DefaultSet\<rparr>"
    and m': "m' = \<lparr>config_file = path', config = DefaultSet, defaults = DefaultSet\<rparr>"
    by (auto simp: ConfigManager_result)
  show "config m = DefaultSet" "config m' = DefaultSet" "defaults m' = defaults m"
    by (simp_all add: m m')
  show "validate_config m' = validate_config m"
    by (simp add: m m' validate_config_def)
  fix k fallback
  show "get m' k fallback = get m k fallback"
    by (simp add: m m' get_def)
qed

theorem ConfigManager_never_fails_witness:
  "load_fails test_fs ''invalid.json'' \<and>
   test_fs ''nonexistent_file.json'' = Inl FileNotFoundError \<and>
   ConfigManager test_fs ''invalid.json'' =
     Inr \<lparr>config_file = ''invalid.json'', config = DefaultSet, defaults = DefaultSet\<rparr> \<and>
   get \<lparr>config_file = ''invalid.json'', config = DefaultSet, defaults = DefaultSet\<rparr>
     ''database_url'' PNone = Inr (PStr ''sqlite:///default.db'')"
proof -
  have a: "load_fails test_fs ''invalid.json''"
    by (simp add: load_fails_def test_fs_def)
  have b: "map_of DefaultSet ''database_url'' = Some (PStr ''sqlite:///default.db'')"
    by (simp add: DefaultSet_def)
  note t = ConfigManager_never_fails [of test_fs "''invalid.json''"]
  have c: "ConfigManager test_fs ''invalid.json'' =
     Inr \<lparr>config_file = ''invalid.json'', config = DefaultSet, defaults = DefaultSet\<rparr>"
    using t a by blast
  have d: "get \<lparr>config_file = ''invalid.json'', config = DefaultSet, defaults = DefaultSet\<rparr>
     ''database_url'' PNone = Inr (PStr ''sqlite:///default.db'')"
    using t a b c by blast
  show ?thesis using a c d by (simp add: test_fs_def)
qed

text \<open>
  Claim C7. \<open>get\<close> resolves a key through three tiers in order: the value of the loaded
  configuration when the key is there; otherwise the fallback of the caller when one was
  supplied, that is when it is not the \<open>None\<close> the parameter defaults to; otherwise the
  value of the DefaultSet when the key is a default key; otherwise \<open>None\<close>.
\<close>

theorem get_three_tiers:
  "(\<forall>v. map_of (config self) key = Some v \<longrightarrow> get self key fallback = Inr v) \<and>
   (map_of (config self) key = None \<and> fallback \<noteq> PNone \<longrightarrow> get self key fallback = Inr fallback) \<and>
   (\<forall>v. map_of (config self) key = None \<and> fallback = PNone \<and> map_of (defaults self) key = Some v \<longrightarrow>
      get self key fallback = Inr v) \<and>
   (map_of (config self) key = None \<and> fallback = PNone \<and> map_of (defaults self) key = None \<longrightarrow>
      get self key fallback = Inr PNone)"
  by (simp add: get_present get_absent)

theorem get_three_tiers_witness:
  "get partial_manager ''timeout'' (PInt 5) = Inr (PInt 60) \<and>
   get partial_manager ''cache_size'' (PInt 5) = Inr (PInt 5) \<and>
   get partial_manager ''cache_size'' PNone = Inr (PInt 100) \<and>
   get partial_manager ''unknown_key'' PNone = Inr PNone"
  using get_three_tiers [of partial_manager "''timeout''" "PInt 5"]
    get_three_tiers [of partial_manager "''cache_size''" "PInt 5"]
    get_three_tiers [of partial_manager "''cache_size''" PNone]
    get_three_tiers [of partial_manager "''unknown_key''" PNone]
  by (simp add: partial_manager_def DefaultSet_def)

subsection \<open>validate_config\<close>

text \<open>
  The result is the concatenation of three independent checks. Each test of the code is
  the rule of the specification up to Python's reading of the value: \<open>None\<close> stands for
  an absent key and \<open>True\<close> is the integer 1.
\<close>

lemma validate_config_eq:
  "validate_config self =
     (if dict_get (config self) ''cache_size'' \<noteq> PNone \<and>
         (\<not> isinstance_int (dict_get (config self) ''cache_size'') \<or>
          num_of (dict_get (config self) ''cache_size'') < 1)
      then [''cache_size must be a positive integer''] else []) @
     (if dict_get (config self) ''timeout'' \<noteq> PNone \<and>
         (\<not> isinstance_int_float (dict_get (config self) ''timeout'') \<or>
          num_of (dict_get (config self) ''timeout'') \<le> 0)
      then [''timeout must be a positive number''] else []) @
     (if dict_get (config self) ''debug'' \<noteq> PNone \<and>
         \<not> isinstance_bool (dict_get (config self) ''debug'')
      then [''debug must be a boolean''] else [])"
  by (simp add: validate_config_def Let_def)

lemma cache_size_test:
  "v \<noteq> PNone \<and> (\<not> isinstance_int v \<or> num_of v < 1) \<longleftrightarrow>
     v \<noteq> PNone \<and> v \<noteq> PBool True \<and> \<not> positive_integer v"
  by (cases v) (auto simp: positive_integer_def)

lemma timeout_test:
  "v \<noteq> PNone \<and> (\<not> isinstance_int_float v \<or> num_of v \<le> 0) \<longleftrightarrow>
     v \<noteq> PNone \<and> v \<noteq> PBool True \<and> \<not> positive_number v"
  by (cases v) (auto simp: positive_number_def)

lemma debug_test:
  "v \<noteq> PNone \<and> \<not> isinstance_bool v \<longleftrightarrow> v \<noteq> PNone \<and> \<not> boolean v"
  by (cases v) (auto simp: boolean_def)

text \<open>
  Claim C8. \<open>validate_config\<close> looks at the keys \<open>cache_size\<close>, \<open>timeout\<close> and \<open>debug\<close> only:
  two configurations that agree on them have the same issues, whatever other keys they
  hold. The result is empty when each of the three keys is absent or passes its rule (a
  positive integer, a positive number, a boolean). It lists, in this order and at most
  once, the issue of each key whose value is present, not \<open>None\<close> and fails the rule as
  Python tests it. On \<open>{cache_size: -10, timeout: "30", debug: "yes"}\<close> it is exactly the three
  issues, one naming each key.
\<close>

theorem validate_config_checks:
  "(\<forall>other.
      map_of (config other) ''cache_size'' = map_of (config self) ''cache_size'' \<and>
      map_of (config other) ''timeout'' = map_of (config self) ''timeout'' \<and>
      map_of (config other) ''debug'' = map_of (config self) ''debug'' \<longrightarrow>
        validate_config other = validate_config self) \<and>
   ((\<forall>v. map_of (config self) ''cache_size'' = Some v \<longrightarrow> positive_integer v) \<and>
    (\<forall>v. map_of (config self) ''timeout'' = Some v \<longrightarrow> positive_number v) \<and>
    (\<forall>v. map_of (config self) ''debug'' = Some v \<longrightarrow> boolean v) \<longrightarrow>
      validate_config self = []) \<and>
   validate_config self =
     filter (\<lambda>issue. issue \<in> set (validate_config self))
       [''cache_size must be a positive integer'', ''timeout must be a positive number'',
        ''debug must be a boolean''] \<and>
   (''cache_size must be a positive integer'' \<in> set (validate_config self) \<longleftrightarrow>
      (\<exists>v. map_of (config self) ''cache_size'' = Some v \<and>
           v \<noteq> PNone \<and> v \<noteq> PBool True \<and> \<not> positive_integer v)) \<and>
   (''timeout must be a positive number'' \<in> set (validate_config self) \<longleftrightarrow>
      (\<exists>v. map_of (config self) ''timeout'' = Some v \<and>
           v \<noteq> PNone \<and> v \<noteq> PBool True \<and> \<not> positive_number v)) \<and>
   (''debug must be a boolean'' \<in> set (validate_config self) \<longleftrightarrow>
      (\<exists>v. map_of (config self) ''debug'' = Some v \<and> v \<noteq> PNone \<and> \<not> boolean v)) \<and>
   (config self = invalid_config_data \<longrightarrow>
      validate_config self =
        [''cache_size must be a positive integer'', ''timeout must be a positive number'',
         ''debug must be a boolean''])"
proof -
  let ?c = "dict_get (config self) ''cache_size''"
  let ?t = "dict_get (config self) ''timeout''"
  let ?d = "dict_get (config self) ''debug''"
  have frame: "\<forall>other.
      map_of (config other) ''cache_size'' = map_of (config self) ''cache_size'' \<and>
      map_of (config other) ''timeout'' = map_of (config self) ''timeout'' \<and>
      map_of (config other) ''debug'' = map_of (config self) ''debug'' \<longrightarrow>
        validate_config other = validate_config self"
    by (simp add: validate_config_eq dict_get_def)
  have c: "''cache_size must be a positive integer'' \<in> set (validate_config self) \<longleftrightarrow>
      ?c \<noteq> PNone \<and> ?c \<noteq> PBool True \<and> \<not> positive_integer ?c"
    using cache_size_test [of ?c] by (simp add: validate_config_eq)
  have t: "''timeout must be a positive number'' \<in> set (validate_config self) \<longleftrightarrow>
      ?t \<noteq> PNone \<and> ?t \<noteq> PBool True \<and> \<not> positive_number ?t"
    using timeout_test [of ?t] by (simp add: validate_config_eq)
  have d: "''debug must be a boolean'' \<in> set (validate_config self) \<longleftrightarrow>
      ?d \<noteq> PNone \<and> \<not> boolean ?d"
    using debug_test [of ?d] by (simp add: validate_config_eq)
  have c': "(?c \<noteq> PNone \<and> ?c \<noteq> PBool True \<and> \<not> positive_integer ?c) \<longleftrightarrow>
      (\<exists>v. map_of (config self) ''cache_size'' = Some v \<and>
           v \<noteq> PNone \<and> v \<noteq> PBool True \<and> \<not> positive_integer v)"
    by (cases "map_of (config self) ''cache_size''") (simp_all add: dict_get_def)
  have t': "(?t \<noteq> PNone \<and> ?t \<noteq> PBool True \<and> \<not> positive_number ?t) \<longleftrightarrow>
      (\<exists>v. map_of (config self) ''timeout'' = Some v \<and>
           v \<noteq> PNone \<and> v \<noteq> PBool True \<and> \<not> positive_number v)"
    by (cases "map_of (config self) ''timeout''") (simp_all add: dict_get_def)
  have d': "(?d \<noteq> PNone \<and> \<not> boolean ?d) \<longleftrightarrow>
      (\<exists>v. map_of (config self) ''debug'' = Some v \<and> v \<noteq> PNone \<and> \<not> boolean v)"
    by (cases "map_of (config self) ''debug''") (simp_all add: dict_get_def)
  have shape: "validate_config self =
     filter (\<lambda>issue. issue \<in> set (validate_config self))
       [''cache_size must be a positive integer'', ''timeout must be a positive number'',
        ''debug must be a boolean'']"
    by (simp add: validate_config_eq)
  have empty: "(\<forall>v. map_of (config self) ''cache_size'' = Some v \<longrightarrow> positive_integer v) \<and>
    (\<forall>v. map_of (config self) ''timeout'' = Some v \<longrightarrow> positive_number v) \<and>
    (\<forall>v. map_of (config self) ''debug'' = Some v \<longrightarrow> boolean v) \<longrightarrow>
      validate_config self = []"
  proof
    assume h: "(\<forall>v. map_of (config self) ''cache_size'' = Some v \<longrightarrow> positive_integer v) \<and>
      (\<forall>v. map_of (config self) ''timeout'' = Some v \<longrightarrow> positive_number v) \<and>
      (\<forall>v. map_of (config self) ''debug'' = Some v \<longrightarrow> boolean v)"
    have "''cache_size must be a positive integer'' \<notin> set (validate_config self)"
      using h unfolding c c' by blast
    moreover have "''timeout must be a positive number'' \<notin> set (validate_config self)"
      using h unfolding t t' by blast
    moreover have "''debug must be a boolean'' \<notin> set (validate_config self)"
      using h unfolding d d' by blast
    ultimately show "validate_config self = []"
      by (subst shape) simp
  qed
  have example: "config self = invalid_config_data \<longrightarrow>
      validate_config self =
        [''cache_size must be a positive integer'', ''timeout must be a positive number'',
         ''debug must be a boolean'']"
    by (simp add: validate_config_eq invalid_config_data_def dict_get_def)
  show ?thesis
    using frame empty shape example c [unfolded c'] t [unfolded t'] d [unfolded d']
    by (intro conjI)
qed

theorem validate_config_checks_witness:
  "validate_config \<lparr>config_file = ''x'', config = invalid_config_data, defaults = DefaultSet\<rparr> =
     [''cache_size must be a positive integer'', ''timeout must be a positive number'',
      ''debug must be a boolean''] \<and>
   validate_config \<lparr>config_file = ''x'', config = [(''cache_size'', PInt 200), (''timeout'', PFloat 30),
      (''debug'', PBool True), (''colour'', PStr ''red'')], defaults = DefaultSet\<rparr> = []"
  using validate_config_checks
      [of "\<lparr>config_file = ''x'', config = invalid_config_data, defaults = DefaultSet\<rparr>"]
    validate_config_checks
      [of "\<lparr>config_file = ''x'', config = [(''cache_size'', PInt 200), (''timeout'', PFloat 30),
         (''debug'', PBool True), (''colour'', PStr ''red'')], defaults = DefaultSet\<rparr>"]
  by (simp add: positive_integer_def positive_number_def boolean_def)



subsection \<open>Processing one item\<close>

text \<open>
  A malformed item fails and leaves the world as it is. A well-formed one draws a random
  number; unless the draw injects a fault, a copy is appended to the store, stamped and
  marked, and its address is returned.
\<close>

lemma process_single_item_malformed:
  "malformed w item \<Longrightarrow> \<exists>e. process_single_item item w = (Inl e, w)"
  by (auto simp: malformed_def process_single_item_def split: option.splits)

lemma process_single_item_wellformed:
  assumes "isinstance_dict w item = Some d" "dict_contains ''id'' d"
  shows "process_single_item item w =
     (if random_src w (random_pos w) < 0.2
      then (Inl (ValueError ''Random processing failure''), w\<lparr>random_pos := random_pos w + 1\<rparr>)
      else (Inr (PRef (length (heap w))),
            w\<lparr>random_pos := random_pos w + 1, clock_pos := clock_pos w + 1,
              heap := heap w @
                [ODict (AList.update ''status'' (PStr ''processed'')
                   (AList.update ''processed_at'' (PFloat (clock_src w (clock_pos w))) d))]\<rparr>))"
  using assms
  by (simp add: process_single_item_def random_random_def dict_copy_def time_time_def
      dict_setitem_def heap_lookup_def Let_def)

lemma process_single_item_frame:
  assumes "process_single_item item w = (r, w1)"
  shows "prefix (heap w) (heap w1) \<and> log w1 = log w \<and> random_src w1 = random_src w \<and>
         clock_src w1 = clock_src w"
proof (cases "malformed w item")
  case True
  then show ?thesis using process_single_item_malformed [OF True] assms by auto
next
  case False
  then obtain d where d: "isinstance_dict w item = Some d" "dict_contains ''id'' d"
    by (auto simp: malformed_def split: option.splits)
  show ?thesis
    using assms unfolding process_single_item_wellformed [OF d]
    by (auto split: if_splits)
qed

subsection \<open>The loop of process_data\<close>

lemma attempted_append: "attempted (xs @ ys) = attempted xs + attempted ys"
  by (induction xs rule: attempted.induct) auto

lemma failures_append: "failures (xs @ ys) = failures xs + failures ys"
  by (induction xs rule: failures.induct) auto

lemma failures_le_attempted: "failures evs \<le> attempted evs"
  by (induction evs rule: failures.induct) auto

text \<open>
  What every run of the loop does to the processor and to the world, whatever the items
  and the random draws are.
\<close>

lemma process_loop_frame:
  assumes "process_loop self i items processed w = (outs, self', w')"
  shows "prefix (heap w) (heap w') \<and> random_src w' = random_src w \<and>
         clock_src w' = clock_src w \<and> max_errors self' = max_errors self \<and>
         (\<exists>evs. log w' = log w @ evs \<and>
            error_count self' = error_count self + int (failures evs) \<and>
            attempted evs \<le> length items \<and>
            length outs + failures evs = length processed + attempted evs \<and>
            int (failures evs) \<le> max 1 (max_errors self - error_count self))"
  using assms
proof (induction items arbitrary: self i processed w)
  case Nil
  then show ?case by simp
next
  case (Cons item rest)
  obtain r w1 where step: "process_single_item item w = (r, w1)"
    by (cases "process_single_item item w") auto
  note fr = process_single_item_frame [OF step]
  show ?case
  proof (cases r)
    case (Inr v)
    let ?w2 = "logger (ItemProcessed i) w1"
    have run: "process_loop self (i + 1) rest (processed @ [v]) ?w2 = (outs, self', w')"
      using Cons.prems step Inr by simp
    from Cons.IH [OF run] obtain evs where
      h: "prefix (heap ?w2) (heap w')" "random_src w' = random_src ?w2"
         "clock_src w' = clock_src ?w2" "max_errors self' = max_errors self"
         "log w' = log ?w2 @ evs" "error_count self' = error_count self + int (failures evs)"
         "attempted evs \<le> length rest"
         "length outs + failures evs = length (processed @ [v]) + attempted evs"
         "int (failures evs) \<le> max 1 (max_errors self - error_count self)"
      by blast
    have "prefix (heap w) (heap w')"
      using fr h(1) by (auto simp: logger_def intro: prefix_order.trans)
    moreover have "log w' = log w @ (ItemProcessed i # evs)"
      using fr h(5) by (simp add: logger_def)
    ultimately show ?thesis
      using fr h by (intro conjI exI [of _ "ItemProcessed i # evs"]) (simp_all add: logger_def)
  next
    case (Inl e)
    let ?self1 = "self\<lparr>error_count := error_count self + 1\<rparr>"
    let ?w2 = "logger (ItemFailed i e) w1"
    show ?thesis
    proof (cases "error_count ?self1 \<ge> max_errors ?self1")
      case True
      then have res: "outs = processed" "self' = ?self1"
          "w' = logger (TooManyErrors (error_count self + 1)) ?w2"
        using Cons.prems step Inl by (auto simp: Let_def)
      show ?thesis
        using fr res
        by (intro conjI exI [of _ "[ItemFailed i e, TooManyErrors (error_count self + 1)]"])
          (simp_all add: logger_def)
    next
      case False
      then have run: "process_loop ?self1 (i + 1) rest processed ?w2 = (outs, self', w')"
        using Cons.prems step Inl by (simp add: Let_def)
      from Cons.IH [OF run] obtain evs where
        h: "prefix (heap ?w2) (heap w')" "random_src w' = random_src ?w2"
           "clock_src w' = clock_src ?w2" "max_errors self' = max_errors ?self1"
           "log w' = log ?w2 @ evs" "error_count self' = error_count ?self1 + int (failures evs)"
           "attempted evs \<le> length rest"
           "length outs + failures evs = length processed + attempted evs"
           "int (failures evs) \<le> max 1 (max_errors ?self1 - error_count ?self1)"
        by blast
      have "prefix (heap w) (heap w')"
        using fr h(1) by (auto simp: logger_def intro: prefix_order.trans)
      moreover have "log w' = log w @ (ItemFailed i e # evs)"
        using fr h(5) by (simp add: logger_def)
      moreover have "int (failures (ItemFailed i e # evs)) \<le> max 1 (max_errors self - error_count self)"
        using h(9) False by simp
      ultimately show ?thesis
        using fr h(2-8)
        by (intro conjI exI [of _ "ItemFailed i e # evs"]) (simp_all add: logger_def)
    qed
  qed
qed

lemma process_data_frame:
  assumes "process_data self data w = (r, self1, w1)"
  shows "prefix (heap w) (heap w1) \<and> max_errors self1 = max_errors self \<and>
         (\<exists>evs. log w1 = log w @ evs \<and>
            error_count self1 = error_count self + int (failures evs) \<and>
            attempted evs \<le> length data \<and>
            int (failures evs) \<le> max 1 (max_errors self - error_count self) \<and>
            (case r of
               Inl e \<Rightarrow> e = ZeroDivisionError \<and> data = []
             | Inr outs \<Rightarrow> data \<noteq> [] \<and> length outs + failures evs = attempted evs))"
proof -
  obtain outs self' w' where loop: "process_loop self 0 data [] w = (outs, self', w')"
    by (cases "process_loop self 0 data [] w") auto
  have res: "self1 = self'" "w1 = w'" "r = (if length data = 0 then Inl ZeroDivisionError else Inr outs)"
    using assms loop by (auto simp: process_data_def split: if_splits)
  from process_loop_frame [OF loop] obtain evs where
    h: "prefix (heap w) (heap w')" "max_errors self' = max_errors self"
       "log w' = log w @ evs" "error_count self' = error_count self + int (failures evs)"
       "attempted evs \<le> length data"
       "length outs + failures evs = length ([]::pyval list) + attempted evs"
       "int (failures evs) \<le> max 1 (max_errors self - error_count self)"
    by blast
  show ?thesis
    unfolding res using h
    by (intro conjI exI [of _ evs]) simp_all
qed

lemma new_log_append: "log w' = log w @ evs \<Longrightarrow> new_log w w' = evs"
  by (simp add: new_log_def)

lemma process_batches_frame:
  assumes "process_batches self batches w = (self', w')"
  shows "max_errors self' = max_errors self \<and>
         (\<exists>evs. log w' = log w @ evs \<and>
            error_count self' = error_count self + int (failures evs))"
  using assms
proof (induction batches arbitrary: self w)
  case Nil
  then show ?case by simp
next
  case (Cons data batches)
  obtain r self1 w1 where call: "process_data self data w = (r, self1, w1)"
    by (cases "process_data self data w") auto
  then have rest: "process_batches self1 batches w1 = (self', w')"
    using Cons.prems by simp
  from process_data_frame [OF call] obtain evs1 where
    h1: "max_errors self1 = max_errors self" "log w1 = log w @ evs1"
        "error_count self1 = error_count self + int (failures evs1)"
    by blast
  from Cons.IH [OF rest] obtain evs2 where
    h2: "max_errors self' = max_errors self1" "log w' = log w1 @ evs2"
        "error_count self' = error_count self1 + int (failures evs2)"
    by blast
  show ?case
    using h1 h2 by (intro conjI exI [of _ "evs1 @ evs2"]) (simp_all add: failures_append)
qed

text \<open>
  Claim C4 says that \<open>process_data\<close> returns a list and never raises, for every list of
  items, the empty list included. On the empty list the code raises: no item is
  attempted, and the success rate computed for the log divides by \<open>len(data) = 0\<close>. On a
  list that is not empty it always returns a list.
\<close>

lemma process_data_nonempty_returns:
  "data \<noteq> [] \<Longrightarrow> \<exists>outs. fst (process_data self data w) = Inr outs"
  by (simp add: process_data_def split: prod.splits)

text \<open>
  C4, at the failing input: \<open>process_data\<close> on the empty list raises ZeroDivisionError,
  with the processor and the world unchanged.
\<close>

theorem process_data_empty_raises:
  "process_data self [] w = (Inl ZeroDivisionError, self, w)"
  by (simp add: process_data_def)

subsection \<open>The error counter and the outcomes of the items\<close>

text \<open>
  \<open>_process_single_item\<close> neither reads nor writes the log, so the outcomes of a batch are
  those the loop sees although it logs between the items.
\<close>

lemma isinstance_dict_log: "isinstance_dict (w\<lparr>log := l\<rparr>) item = isinstance_dict w item"
  by (cases item) (simp_all add: isinstance_dict_def heap_lookup_def)

lemma process_single_item_log:
  "process_single_item item (w\<lparr>log := l\<rparr>) =
     (case process_single_item item w of (r, w1) \<Rightarrow> (r, w1\<lparr>log := l\<rparr>))"
proof (cases "isinstance_dict w item")
  case None
  then show ?thesis by (simp add: process_single_item_def isinstance_dict_log)
next
  case (Some d)
  then show ?thesis
    by (simp add: process_single_item_def isinstance_dict_log random_random_def dict_copy_def
        time_time_def dict_setitem_def heap_lookup_def Let_def)
qed

lemma item_outcomes_log: "item_outcomes (w\<lparr>log := l\<rparr>) items = item_outcomes w items"
proof (induction items arbitrary: w l)
  case Nil
  then show ?case by simp
next
  case (Cons item rest)
  obtain r w1 where step: "process_single_item item w = (r, w1)"
    by (cases "process_single_item item w") auto
  show ?case
    using Cons.IH [where w = w1 and l = l] by (simp add: process_single_item_log step)
qed

lemma item_outcomes_logger: "item_outcomes (logger ev w) items = item_outcomes w items"
  by (simp add: logger_def item_outcomes_log)

lemma process_loop_outcomes:
  assumes "process_loop self i items processed w = (outs, self', w')"
  shows "error_count self' =
           error_count self +
           int (length (filter isl
             (attempted_outcomes (max_errors self) (error_count self) (item_outcomes w items))))"
  using assms
proof (induction items arbitrary: self i processed w)
  case Nil
  then show ?case by simp
next
  case (Cons item rest)
  obtain r w1 where step: "process_single_item item w = (r, w1)"
    by (cases "process_single_item item w") auto
  show ?case
  proof (cases r)
    case (Inr v)
    have run: "process_loop self (i + 1) rest (processed @ [v]) (logger (ItemProcessed i) w1)
        = (outs, self', w')"
      using Cons.prems step Inr by simp
    show ?thesis
      using Cons.IH [OF run] by (simp add: step Inr item_outcomes_logger)
  next
    case (Inl e)
    let ?self1 = "self\<lparr>error_count := error_count self + 1\<rparr>"
    show ?thesis
    proof (cases "error_count ?self1 \<ge> max_errors ?self1")
      case True
      then have "self' = ?self1"
        using Cons.prems step Inl by (auto simp: Let_def)
      then show ?thesis using True by (simp add: step Inl)
    next
      case False
      then have run: "process_loop ?self1 (i + 1) rest processed (logger (ItemFailed i e) w1)
          = (outs, self', w')"
        using Cons.prems step Inl by (simp add: Let_def)
      show ?thesis
        using Cons.IH [OF run] False by (simp add: step Inl item_outcomes_logger)
    qed
  qed
qed

lemma process_data_outcomes:
  assumes "process_data self data w = (r, self1, w1)"
  shows "error_count self1 = error_count self + int (call_failures self data w)"
proof -
  obtain outs self' w' where loop: "process_loop self 0 data [] w = (outs, self', w')"
    by (cases "process_loop self 0 data [] w") auto
  have "self1 = self'" using assms loop by (auto simp: process_data_def split: if_splits)
  then show ?thesis using process_loop_outcomes [OF loop] by (simp add: call_failures_def)
qed

lemma process_loop_attempted:
  assumes "process_loop self i items processed w = (outs, self', w')"
  shows "\<exists>evs. log w' = log w @ evs \<and>
           attempted evs =
             length (attempted_outcomes (max_errors self) (error_count self) (item_outcomes w items))"
  using assms
proof (induction items arbitrary: self i processed w)
  case Nil
  then show ?case by simp
next
  case (Cons item rest)
  obtain r w1 where step: "process_single_item item w = (r, w1)"
    by (cases "process_single_item item w") auto
  have lg: "log w1 = log w" using process_single_item_frame [OF step] by simp
  show ?case
  proof (cases r)
    case (Inr v)
    have run: "process_loop self (i + 1) rest (processed @ [v]) (logger (ItemProcessed i) w1)
        = (outs, self', w')"
      using Cons.prems step Inr by simp
    from Cons.IH [OF run] obtain evs where
      h: "log w' = log (logger (ItemProcessed i) w1) @ evs"
         "attempted evs =
            length (attempted_outcomes (max_errors self) (error_count self) (item_outcomes w1 rest))"
      by (auto simp: item_outcomes_logger)
    have "log w' = log w @ (ItemProcessed i # evs) \<and>
        attempted (ItemProcessed i # evs) =
          length (attempted_outcomes (max_errors self) (error_count self)
            (item_outcomes w (item # rest)))"
      using h lg by (simp add: step Inr logger_def)
    then show ?thesis by blast
  next
    case (Inl e)
    let ?self1 = "self\<lparr>error_count := error_count self + 1\<rparr>"
    show ?thesis
    proof (cases "error_count ?self1 \<ge> max_errors ?self1")
      case True
      then have "w' = logger (TooManyErrors (error_count self + 1)) (logger (ItemFailed i e) w1)"
        using Cons.prems step Inl by (auto simp: Let_def)
      then have "log w' = log w @ [ItemFailed i e, TooManyErrors (error_count self + 1)] \<and>
        attempted [ItemFailed i e, TooManyErrors (error_count self + 1)] =
          length (attempted_outcomes (max_errors self) (error_count self)
            (item_outcomes w (item # rest)))"
        using True lg by (simp add: step Inl logger_def)
      then show ?thesis by blast
    next
      case False
      then have run: "process_loop ?self1 (i + 1) rest processed (logger (ItemFailed i e) w1)
          = (outs, self', w')"
        using Cons.prems step Inl by (simp add: Let_def)
      from Cons.IH [OF run] obtain evs where
        h: "log w' = log (logger (ItemFailed i e) w1) @ evs"
           "attempted evs =
              length (attempted_outcomes (max_errors self) (error_count self + 1)
                (item_outcomes w1 rest))"
        by (auto simp: item_outcomes_logger)
      have "log w' = log w @ (ItemFailed i e # evs) \<and>
          attempted (ItemFailed i e # evs) =
            length (attempted_outcomes (max_errors self) (error_count self)
              (item_outcomes w (item # rest)))"
        using h lg False by (simp add: step Inl logger_def)
      then show ?thesis by blast
    qed
  qed
qed

lemma process_data_attempted:
  assumes "process_data self data w = (r, self1, w1)"
  shows "attempted (new_log w w1) =
           length (attempted_outcomes (max_errors self) (error_count self) (item_outcomes w data))"
proof -
  obtain outs self' w' where loop: "process_loop self 0 data [] w = (outs, self', w')"
    by (cases "process_loop self 0 data [] w") auto
  have "w1 = w'" using assms loop by (auto simp: process_data_def split: if_splits)
  then show ?thesis
    using process_loop_attempted [OF loop] by (auto simp: new_log_def)
qed

lemma process_batches_outcomes:
  assumes "process_batches self batches w = (self', w')"
  shows "error_count self' = error_count self + int (cumulative_failures self batches w)"
  using assms
proof (induction batches arbitrary: self w)
  case Nil
  then show ?case by simp
next
  case (Cons data batches)
  obtain r self1 w1 where call: "process_data self data w = (r, self1, w1)"
    by (cases "process_data self data w") auto
  then have rest: "process_batches self1 batches w1 = (self', w')"
    using Cons.prems by simp
  show ?case
    using Cons.IH [OF rest] process_data_outcomes [OF call] by (simp add: call)
qed

text \<open>
  Claim C9. The error counter is 0 on a new processor and \<open>process_data\<close> never resets it:
  over any sequence of calls on one processor it does not decrease and grows by exactly
  the number of item failures of those calls, that is the number of attempted items on
  which \<open>_process_single_item\<close> raised; so from a counter of 0 it is 0 afterwards only if no
  item has failed. \<open>max_errors\<close> does not change. The calls share the budget: the items a
  call attempts are decided from the counter the earlier calls left, and one call counts
  at most \<open>max_errors - error_count\<close> failures (and at least the one failure it takes to
  notice that the budget is exhausted). The log of a call agrees: it records as many
  attempted items and as many failures.
\<close>

theorem error_count_cumulative:
  "error_count (DataProcessor cfg) = 0 \<and>
   (\<forall>self' w'. process_batches self batches w = (self', w') \<longrightarrow>
      error_count self' = error_count self + int (cumulative_failures self batches w) \<and>
      error_count self \<le> error_count self' \<and>
      max_errors self' = max_errors self \<and>
      (error_count self = 0 \<longrightarrow>
         (error_count self' = 0 \<longleftrightarrow> cumulative_failures self batches w = 0))) \<and>
   (\<forall>r self1 w1. process_data self data w = (r, self1, w1) \<longrightarrow>
      error_count self1 = error_count self + int (call_failures self data w) \<and>
      failures (new_log w w1) = call_failures self data w \<and>
      attempted (new_log w w1) =
        length (attempted_outcomes (max_errors self) (error_count self) (item_outcomes w data)) \<and>
      int (call_failures self data w) \<le> max 1 (max_errors self - error_count self))"
proof (intro conjI allI impI)
  show "error_count (DataProcessor cfg) = 0" by (simp add: DataProcessor_def)
next
  fix self' w'
  assume run: "process_batches self batches w = (self', w')"
  note h = process_batches_outcomes [OF run]
  show "error_count self' = error_count self + int (cumulative_failures self batches w)"
    using h .
  show "error_count self \<le> error_count self'" using h by simp
  show "max_errors self' = max_errors self" using process_batches_frame [OF run] by simp
  assume "error_count self = 0"
  then show "error_count self' = 0 \<longleftrightarrow> cumulative_failures self batches w = 0"
    using h by simp
next
  fix r self1 w1
  assume call: "process_data self data w = (r, self1, w1)"
  note h = process_data_outcomes [OF call]
  from process_data_frame [OF call] obtain evs where
    f: "log w1 = log w @ evs" "error_count self1 = error_count self + int (failures evs)"
       "int (failures evs) \<le> max 1 (max_errors self - error_count self)"
    by blast
  note nl = new_log_append [OF f(1)]
  show "error_count self1 = error_count self + int (call_failures self data w)"
    using h .
  show "failures (new_log w w1) = call_failures self data w"
    using h f(2) by (simp add: nl)
  show "attempted (new_log w w1) =
        length (attempted_outcomes (max_errors self) (error_count self) (item_outcomes w data))"
    using call by (rule process_data_attempted)
  show "int (call_failures self data w) \<le> max 1 (max_errors self - error_count self)"
    using h f(2,3) by simp
qed


subsection \<open>Copies\<close>

lemma prefix_nth: "prefix xs ys \<Longrightarrow> n < length xs \<Longrightarrow> ys ! n = xs ! n"
  by (auto simp: prefix_def nth_append)

lemma processed_copy_of_update:
  "processed_copy_of
     (AList.update ''status'' (PStr ''processed'') (AList.update ''processed_at'' (PFloat t) d)) d"
  by (simp add: processed_copy_of_def update_conv')

lemma process_single_item_success:
  assumes "process_single_item item w = (Inr v, w1)"
  shows "\<exists>a d. item = PRef a \<and> heap_lookup w a = Some (ODict d) \<and> \<not> malformed w item \<and>
           \<not> random_src w (random_pos w) < 0.2 \<and> v = PRef (length (heap w)) \<and>
           heap w1 = heap w @
             [ODict (AList.update ''status'' (PStr ''processed'')
                (AList.update ''processed_at'' (PFloat (clock_src w (clock_pos w))) d))]"
proof -
  have nm: "\<not> malformed w item"
    using process_single_item_malformed [of w item] assms by auto
  then obtain d where d: "isinstance_dict w item = Some d" "dict_contains ''id'' d"
    by (auto simp: malformed_def split: option.splits)
  then obtain a where a: "item = PRef a" "heap_lookup w a = Some (ODict d)"
    by (auto simp: isinstance_dict_def split: pyval.splits option.splits obj.splits)
  show ?thesis
    using assms nm a unfolding process_single_item_wellformed [OF d]
    by (auto split: if_splits)
qed

lemma copy_made:
  assumes "process_single_item item w = (Inr v, w1)"
    and "prefix (heap w0) (heap w)" "allocated w0 item" "prefix (heap w1) (heap w')"
  shows "is_processed_copy w0 w' v item"
proof -
  from process_single_item_success [OF assms(1)] obtain a d where
    h: "item = PRef a" "heap_lookup w a = Some (ODict d)" "v = PRef (length (heap w))"
       "heap w1 = heap w @
             [ODict (AList.update ''status'' (PStr ''processed'')
                (AList.update ''processed_at'' (PFloat (clock_src w (clock_pos w))) d))]"
    by blast
  have a0: "a < length (heap w0)" using assms(3) h(1) by (simp add: allocated_def)
  have len: "length (heap w0) \<le> length (heap w)" using assms(2) by (rule prefix_length_le)
  have "heap w ! a = heap w0 ! a" using prefix_nth [OF assms(2) a0] .
  moreover have "heap w ! a = ODict d"
    using h(2) by (simp add: heap_lookup_def split: if_splits)
  ultimately have in0: "heap_lookup w0 a = Some (ODict d)"
    using a0 by (simp add: heap_lookup_def)
  have l1: "length (heap w) < length (heap w1)" by (simp add: h(4))
  have l': "length (heap w1) \<le> length (heap w')" using assms(4) by (rule prefix_length_le)
  have "heap w' ! length (heap w) = heap w1 ! length (heap w)"
    using prefix_nth [OF assms(4) l1] .
  then have out: "heap_lookup w' (length (heap w)) =
      Some (ODict (AList.update ''status'' (PStr ''processed'')
                (AList.update ''processed_at'' (PFloat (clock_src w (clock_pos w))) d)))"
    using l1 l' by (simp add: heap_lookup_def h(4))
  show ?thesis
    using in0 out len
    by (simp add: is_processed_copy_def h(1,3) processed_copy_of_update)
qed

lemma process_loop_copies:
  assumes "process_loop self i items processed w = (outs, self', w')"
    and "prefix (heap w0) (heap w)" "\<forall>item\<in>set items. allocated w0 item"
  shows "\<exists>new succ. outs = processed @ new \<and> subseq succ items \<and>
           list_all2 (is_processed_copy w0 w') new succ"
  using assms
proof (induction items arbitrary: self i processed w)
  case Nil
  then show ?case by simp
next
  case (Cons item rest)
  obtain r w1 where step: "process_single_item item w = (r, w1)"
    by (cases "process_single_item item w") auto
  note fr = process_single_item_frame [OF step]
  have p1: "prefix (heap w0) (heap w1)"
    using Cons.prems(2) fr by (auto intro: prefix_order.trans)
  have al: "\<forall>item\<in>set rest. allocated w0 item" "allocated w0 item"
    using Cons.prems(3) by simp_all
  show ?case
  proof (cases r)
    case (Inr v)
    let ?w2 = "logger (ItemProcessed i) w1"
    have run: "process_loop self (i + 1) rest (processed @ [v]) ?w2 = (outs, self', w')"
      using Cons.prems(1) step Inr by simp
    have p2: "prefix (heap w0) (heap ?w2)" using p1 by (simp add: logger_def)
    from Cons.IH [OF run p2 al(1)] obtain new succ where
      h: "outs = (processed @ [v]) @ new" "subseq succ rest"
         "list_all2 (is_processed_copy w0 w') new succ"
      by blast
    have "prefix (heap w1) (heap w')"
      using process_loop_frame [OF run] by (simp add: logger_def)
    then have "is_processed_copy w0 w' v item"
      using copy_made [OF _ Cons.prems(2) al(2)] step Inr by simp
    then have "outs = processed @ (v # new) \<and> subseq (item # succ) (item # rest) \<and>
        list_all2 (is_processed_copy w0 w') (v # new) (item # succ)"
      using h by simp
    then show ?thesis by blast
  next
    case (Inl e)
    let ?self1 = "self\<lparr>error_count := error_count self + 1\<rparr>"
    let ?w2 = "logger (ItemFailed i e) w1"
    show ?thesis
    proof (cases "error_count ?self1 \<ge> max_errors ?self1")
      case True
      then have "outs = processed"
        using Cons.prems(1) step Inl by (auto simp: Let_def)
      then have "outs = processed @ [] \<and> subseq [] (item # rest) \<and>
          list_all2 (is_processed_copy w0 w') [] []"
        by simp
      then show ?thesis by blast
    next
      case False
      then have run: "process_loop ?self1 (i + 1) rest processed ?w2 = (outs, self', w')"
        using Cons.prems(1) step Inl by (simp add: Let_def)
      have p2: "prefix (heap w0) (heap ?w2)" using p1 by (simp add: logger_def)
      from Cons.IH [OF run p2 al(1)] obtain new succ where
        h: "outs = processed @ new" "subseq succ rest"
           "list_all2 (is_processed_copy w0 w') new succ"
        by blast
      then have "outs = processed @ new \<and> subseq succ (item # rest) \<and>
          list_all2 (is_processed_copy w0 w') new succ"
        by auto
      then show ?thesis by blast
    qed
  qed
qed

text \<open>
  Claim C10. \<open>process_data\<close> never mutates its input. For a batch whose references point
  into the store, the store after the call extends the store before it: every object that
  existed, so every input item, malformed or not, is as it was. Each item returned is a
  dict allocated during the call, a copy of an input dict with \<open>processed_at\<close> and \<open>status\<close>
  set, and the items returned correspond, in order, to a subsequence of the input.
\<close>

theorem process_data_never_mutates:
  assumes "\<forall>item\<in>set data. allocated w item"
    and "process_data self data w = (r, self', w')"
  shows "prefix (heap w) (heap w') \<and>
         (\<forall>a<length (heap w). heap_lookup w' a = heap_lookup w a) \<and>
         (\<forall>outs. r = Inr outs \<longrightarrow>
            (\<exists>succ. subseq succ data \<and> list_all2 (is_processed_copy w w') outs succ))"
proof -
  obtain outs self1 w1 where loop: "process_loop self 0 data [] w = (outs, self1, w1)"
    by (cases "process_loop self 0 data [] w") auto
  have res: "w' = w1" "r = (if length data = 0 then Inl ZeroDivisionError else Inr outs)"
    using assms(2) loop by (auto simp: process_data_def split: if_splits)
  have pre: "prefix (heap w) (heap w')"
    using process_loop_frame [OF loop] res by simp
  have same: "\<forall>a<length (heap w). heap_lookup w' a = heap_lookup w a"
    using prefix_nth [OF pre] prefix_length_le [OF pre] by (simp add: heap_lookup_def)
  from process_loop_copies [OF loop _ assms(1)] obtain new succ where
    "outs = [] @ new" "subseq succ data" "list_all2 (is_processed_copy w w1) new succ"
    by auto
  then have "\<forall>outs'. r = Inr outs' \<longrightarrow>
            (\<exists>succ. subseq succ data \<and> list_all2 (is_processed_copy w w') outs' succ)"
    unfolding res by (auto split: if_splits)
  then show ?thesis using pre same by blast
qed

subsection \<open>Runs without injected faults, runs on malformed items\<close>

lemma isinstance_dict_prefix:
  "prefix (heap w0) (heap w) \<Longrightarrow> allocated w0 item \<Longrightarrow> isinstance_dict w item = isinstance_dict w0 item"
  using prefix_nth [of "heap w0" "heap w"] prefix_length_le [of "heap w0" "heap w"]
  by (auto simp: isinstance_dict_def allocated_def heap_lookup_def split: pyval.splits)

lemma malformed_prefix:
  "prefix (heap w0) (heap w) \<Longrightarrow> allocated w0 item \<Longrightarrow> malformed w item = malformed w0 item"
  by (simp add: malformed_def isinstance_dict_prefix)

lemma malformed_same_heap: "heap w1 = heap w \<Longrightarrow> malformed w1 item = malformed w item"
  by (cases item) (simp_all add: malformed_def isinstance_dict_def heap_lookup_def)

lemma upt_first: "[i..<i + Suc n] = i # [i + 1..<i + 1 + n]"
  by (subst upt_conv_Cons) simp_all

lemma process_single_item_no_fault:
  assumes "\<not> malformed w item" "\<not> random_src w (random_pos w) < 0.2"
  shows "\<exists>v w1. process_single_item item w = (Inr v, w1)"
proof -
  obtain d where d: "isinstance_dict w item = Some d" "dict_contains ''id'' d"
    using assms(1) by (auto simp: malformed_def split: option.splits)
  show ?thesis
    unfolding process_single_item_wellformed [OF d] using assms(2) by simp
qed

lemma process_loop_no_faults:
  assumes "process_loop self i items processed w = (outs, self', w')"
    and "no_faults w" "prefix (heap w0) (heap w)" "\<forall>item\<in>set items. allocated w0 item"
    and "error_count self + int (length (filter (malformed w0) items)) < max_errors self"
  shows "\<exists>new evs. outs = processed @ new \<and>
           list_all2 (is_processed_copy w0 w') new (filter (\<lambda>item. \<not> malformed w0 item) items) \<and>
           error_count self' = error_count self + int (length (filter (malformed w0) items)) \<and>
           log w' = log w @ evs \<and> attempted_indices evs = [i..<i + length items]"
  using assms
proof (induction items arbitrary: self i processed w)
  case Nil
  then show ?case by simp
next
  case (Cons item rest)
  obtain r w1 where step: "process_single_item item w = (r, w1)"
    by (cases "process_single_item item w") auto
  note fr = process_single_item_frame [OF step]
  have p1: "prefix (heap w0) (heap w1)"
    using Cons.prems(3) fr by (auto intro: prefix_order.trans)
  have al: "\<forall>item\<in>set rest. allocated w0 item" "allocated w0 item"
    using Cons.prems(4) by simp_all
  have mal: "malformed w item = malformed w0 item"
    using malformed_prefix [OF Cons.prems(3) al(2)] .
  have nf1: "no_faults w1" using Cons.prems(2) fr by (simp add: no_faults_def)
  have upt: "[i..<i + length (item # rest)] = i # [i + 1..<i + 1 + length rest]"
    using upt_first [of i "length rest"] by simp
  show ?case
  proof (cases "malformed w0 item")
    case True
    then obtain e where e: "r = Inl e" "w1 = w"
      using process_single_item_malformed [of w item] mal step by auto
    let ?self1 = "self\<lparr>error_count := error_count self + 1\<rparr>"
    let ?w2 = "logger (ItemFailed i e) w1"
    have budget: "error_count ?self1 + int (length (filter (malformed w0) rest)) < max_errors ?self1"
      using Cons.prems(5) True by simp
    then have "\<not> error_count ?self1 \<ge> max_errors ?self1" by simp
    then have run: "process_loop ?self1 (i + 1) rest processed ?w2 = (outs, self', w')"
      using Cons.prems(1) step e by (simp add: Let_def)
    have "no_faults ?w2" "prefix (heap w0) (heap ?w2)"
      using nf1 p1 by (simp_all add: logger_def no_faults_def)
    from Cons.IH [OF run this al(1) budget] obtain new evs where
      h: "outs = processed @ new"
         "list_all2 (is_processed_copy w0 w') new (filter (\<lambda>item. \<not> malformed w0 item) rest)"
         "error_count self' = error_count ?self1 + int (length (filter (malformed w0) rest))"
         "log w' = log ?w2 @ evs" "attempted_indices evs = [i + 1..<i + 1 + length rest]"
      by blast
    have "attempted_indices (ItemFailed i e # evs) = i # [i + 1..<i + 1 + length rest]"
      using h(5) by simp
    then have ai: "attempted_indices (ItemFailed i e # evs) = [i..<i + length (item # rest)]"
      by (simp only: upt)
    have "outs = processed @ new \<and>
           list_all2 (is_processed_copy w0 w') new (filter (\<lambda>item. \<not> malformed w0 item) (item # rest)) \<and>
           error_count self' = error_count self + int (length (filter (malformed w0) (item # rest))) \<and>
           log w' = log w @ (ItemFailed i e # evs)"
      using h(1-4) True e by (simp add: logger_def)
    then show ?thesis using ai by blast
  next
    case False
    then obtain v where v: "r = Inr v"
      using process_single_item_no_fault [of w item] mal Cons.prems(2) step
      by (auto simp: no_faults_def)
    let ?w2 = "logger (ItemProcessed i) w1"
    have run: "process_loop self (i + 1) rest (processed @ [v]) ?w2 = (outs, self', w')"
      using Cons.prems(1) step v by simp
    have budget: "error_count self + int (length (filter (malformed w0) rest)) < max_errors self"
      using Cons.prems(5) False by simp
    have "no_faults ?w2" "prefix (heap w0) (heap ?w2)"
      using nf1 p1 by (simp_all add: logger_def no_faults_def)
    from Cons.IH [OF run this al(1) budget] obtain new evs where
      h: "outs = (processed @ [v]) @ new"
         "list_all2 (is_processed_copy w0 w') new (filter (\<lambda>item. \<not> malformed w0 item) rest)"
         "error_count self' = error_count self + int (length (filter (malformed w0) rest))"
         "log w' = log ?w2 @ evs" "attempted_indices evs = [i + 1..<i + 1 + length rest]"
      by blast
    have "prefix (heap w1) (heap w')"
      using process_loop_frame [OF run] by (simp add: logger_def)
    then have "is_processed_copy w0 w' v item"
      using copy_made [OF _ Cons.prems(3) al(2)] step v by simp
    moreover have "attempted_indices (ItemProcessed i # evs) = i # [i + 1..<i + 1 + length rest]"
      using h(5) by simp
    then have ai: "attempted_indices (ItemProcessed i # evs) = [i..<i + length (item # rest)]"
      by (simp only: upt)
    ultimately have "outs = processed @ (v # new) \<and>
           list_all2 (is_processed_copy w0 w') (v # new) (filter (\<lambda>item. \<not> malformed w0 item) (item # rest)) \<and>
           error_count self' = error_count self + int (length (filter (malformed w0) (item # rest))) \<and>
           log w' = log w @ (ItemProcessed i # evs)"
      using h(1-4) False fr by (simp add: logger_def)
    then show ?thesis using ai by blast
  qed
qed

lemma process_loop_all_malformed:
  assumes "\<forall>item\<in>set items. malformed w item"
    and "error_count self < max_errors self"
    and "nat (max_errors self - error_count self) \<le> length items"
  shows "\<exists>evs. process_loop self i items processed w =
           (processed, self\<lparr>error_count := max_errors self\<rparr>,
            w\<lparr>log := log w @ evs @ [TooManyErrors (max_errors self)]\<rparr>) \<and>
           attempted_indices evs = [i..<i + nat (max_errors self - error_count self)] \<and>
           failures evs = nat (max_errors self - error_count self)"
  using assms
proof (induction items arbitrary: self i w)
  case Nil
  then show ?case by simp
next
  case (Cons item rest)
  obtain e where step: "process_single_item item w = (Inl e, w)"
    using process_single_item_malformed [of w item] Cons.prems(1) by auto
  let ?self1 = "self\<lparr>error_count := error_count self + 1\<rparr>"
  let ?w2 = "logger (ItemFailed i e) w"
  show ?case
  proof (cases "error_count ?self1 \<ge> max_errors ?self1")
    case True
    then have eq: "max_errors self = error_count self + 1" using Cons.prems(2) by simp
    have "process_loop self i (item # rest) processed w =
           (processed, self\<lparr>error_count := max_errors self\<rparr>,
            w\<lparr>log := log w @ [ItemFailed i e] @ [TooManyErrors (max_errors self)]\<rparr>) \<and>
           attempted_indices [ItemFailed i e] = [i..<i + nat (max_errors self - error_count self)] \<and>
           failures [ItemFailed i e] = nat (max_errors self - error_count self)"
      using step eq by (simp add: Let_def logger_def)
    then show ?thesis by blast
  next
    case False
    then have lt: "error_count ?self1 < max_errors ?self1" by simp
    have run: "process_loop self i (item # rest) processed w =
        process_loop ?self1 (i + 1) rest processed ?w2"
      using step False by (simp add: Let_def)
    have m: "\<forall>item\<in>set rest. malformed ?w2 item"
      using Cons.prems(1) malformed_same_heap [of ?w2 w] by (simp add: logger_def)
    have len: "nat (max_errors ?self1 - error_count ?self1) \<le> length rest"
      using Cons.prems(3) lt by simp
    from Cons.IH [OF m lt len, of "i + 1"] obtain evs where
      h: "process_loop ?self1 (i + 1) rest processed ?w2 =
           (processed, ?self1\<lparr>error_count := max_errors ?self1\<rparr>,
            ?w2\<lparr>log := log ?w2 @ evs @ [TooManyErrors (max_errors ?self1)]\<rparr>)"
         "attempted_indices evs = [i + 1..<i + 1 + nat (max_errors ?self1 - error_count ?self1)]"
         "failures evs = nat (max_errors ?self1 - error_count ?self1)"
      by blast
    have k: "nat (max_errors self - error_count self) = Suc (nat (max_errors self - (error_count self + 1)))"
      using lt by simp
    have "attempted_indices (ItemFailed i e # evs) =
        i # [i + 1..<i + 1 + nat (max_errors self - (error_count self + 1))]"
      using h(2) by simp
    then have ai: "attempted_indices (ItemFailed i e # evs) =
        [i..<i + nat (max_errors self - error_count self)]"
      unfolding k by (simp only: upt_first)
    have "process_loop self i (item # rest) processed w =
           (processed, self\<lparr>error_count := max_errors self\<rparr>,
            w\<lparr>log := log w @ (ItemFailed i e # evs) @ [TooManyErrors (max_errors self)]\<rparr>) \<and>
           failures (ItemFailed i e # evs) = nat (max_errors self - error_count self)"
      using h(1,3) unfolding run k by (simp add: logger_def)
    then show ?thesis using ai by blast
  qed
qed

text \<open>
  Claim C5, amended. For a batch of \<open>N \<ge> 1\<close> items of which \<open>M\<close> are malformed, with \<open>M\<close> below
  the error budget of a new processor (\<open>max_errors = 5\<close>), fault injection disabled and a
  new processor, \<open>process_data\<close> attempts every item and returns exactly \<open>N - M\<close> items, the
  processed copies of the well-formed input items in their input order, and the error
  counter is \<open>M\<close> afterwards.
\<close>

theorem process_data_partial_results:
  assumes "data \<noteq> []" "\<forall>item\<in>set data. allocated w item" "no_faults w"
    and "length (filter (malformed w) data) < 5"
    and "process_data (DataProcessor cfg) data w = (r, self', w')"
  shows "\<exists>outs. r = Inr outs \<and>
           length outs = length data - length (filter (malformed w) data) \<and>
           list_all2 (is_processed_copy w w') outs (filter (\<lambda>item. \<not> malformed w item) data) \<and>
           error_count self' = int (length (filter (malformed w) data)) \<and>
           attempted_indices (new_log w w') = [0..<length data]"
proof -
  let ?self = "DataProcessor cfg"
  obtain outs self1 w1 where loop: "process_loop ?self 0 data [] w = (outs, self1, w1)"
    by (cases "process_loop ?self 0 data [] w") auto
  have res: "r = Inr outs" "self' = self1" "w' = w1"
    using assms(1,5) loop by (auto simp: process_data_def)
  have budget: "error_count ?self + int (length (filter (malformed w) data)) < max_errors ?self"
    using assms(4) by (simp add: DataProcessor_def)
  from process_loop_no_faults [OF loop assms(3) _ assms(2) budget] obtain new evs where
    h: "outs = [] @ new"
       "list_all2 (is_processed_copy w w1) new (filter (\<lambda>item. \<not> malformed w item) data)"
       "error_count self1 = error_count ?self + int (length (filter (malformed w) data))"
       "log w1 = log w @ evs" "attempted_indices evs = [0..<0 + length data]"
    by auto
  have "length outs = length (filter (\<lambda>item. \<not> malformed w item) data)"
    using h(1,2) by (simp add: list_all2_lengthD)
  moreover have "length (filter (malformed w) data) + length (filter (\<lambda>item. \<not> malformed w item) data)
      = length data"
    by (rule sum_length_filter_compl)
  ultimately have len: "length outs = length data - length (filter (malformed w) data)"
    by simp
  show ?thesis
    using h len unfolding res
    by (simp add: new_log_append [OF h(4)] DataProcessor_def)
qed

text \<open>
  Claim C6, amended. For a batch of \<open>N\<close> items that are all malformed and a new processor
  with an error budget \<open>1 \<le> E < N\<close>, \<open>process_data\<close> attempts exactly the items \<open>0, ..., E - 1\<close>,
  each a failure, stops right after failure number \<open>E\<close> and returns the empty list; the
  counter is \<open>E\<close> afterwards.
\<close>

theorem process_data_error_budget:
  assumes "\<forall>item\<in>set data. malformed w item" "1 \<le> E" "E < int (length data)"
  shows "\<exists>evs. process_data ((DataProcessor cfg)\<lparr>max_errors := E\<rparr>) data w =
           (Inr [], (DataProcessor cfg)\<lparr>max_errors := E, error_count := E\<rparr>,
            w\<lparr>log := log w @ evs @ [TooManyErrors E]\<rparr>) \<and>
           attempted_indices evs = [0..<nat E] \<and> failures evs = nat E"
proof -
  let ?self = "(DataProcessor cfg)\<lparr>max_errors := E\<rparr>"
  have a: "error_count ?self < max_errors ?self" using assms(2) by (simp add: DataProcessor_def)
  have b: "nat (max_errors ?self - error_count ?self) \<le> length data"
    using assms(3) by (simp add: DataProcessor_def)
  from process_loop_all_malformed [OF assms(1) a b, of 0 "[]"] obtain evs where
    h: "process_loop ?self 0 data [] w =
           ([], ?self\<lparr>error_count := max_errors ?self\<rparr>,
            w\<lparr>log := log w @ evs @ [TooManyErrors (max_errors ?self)]\<rparr>)"
       "attempted_indices evs = [0..<0 + nat (max_errors ?self - error_count ?self)]"
       "failures evs = nat (max_errors ?self - error_count ?self)"
    by blast
  have ne: "length data \<noteq> 0" using assms(2,3) by auto
  have "process_data ?self data w =
           (Inr [], (DataProcessor cfg)\<lparr>max_errors := E, error_count := E\<rparr>,
            w\<lparr>log := log w @ evs @ [TooManyErrors E]\<rparr>) \<and>
           attempted_indices evs = [0..<nat E] \<and> failures evs = nat E"
    using h ne by (simp add: process_data_def DataProcessor_def)
  then show ?thesis by blast
qed

text \<open>The definitions a run on a concrete batch unfolds.\<close>

lemmas eval_defs = process_data_def process_single_item_def isinstance_dict_def heap_lookup_def
  dict_contains_def random_random_def time_time_def dict_copy_def dict_setitem_def logger_def
  DataProcessor_def test_world_def test_heap_def malformed_def allocated_def no_faults_def
  new_log_def Let_def recovery_batch_def budget_batch_def

text \<open>
  C5 as stated fails once the budget is reached: with five malformed items before a valid
  one (\<open>N = 6\<close>, \<open>M = 5\<close>), the processor stops at the fifth failure and returns no item, not
  \<open>N - M = 1\<close>.
\<close>

theorem process_data_partial_results_counterexample:
  "no_faults (test_world test_heap) \<and> length budget_batch = 6 \<and>
   length (filter (malformed (test_world test_heap)) budget_batch) = 5 \<and>
   fst (process_data (DataProcessor partial_manager) budget_batch (test_world test_heap)) = Inr [] \<and>
   \<not> (\<exists>outs. fst (process_data (DataProcessor partial_manager) budget_batch (test_world test_heap))
          = Inr outs \<and> length outs = 6 - 5)"
  by (simp add: eval_defs)

text \<open>
  C6 as stated fails for \<open>E = 0\<close>: the budget is only checked after a failure, so one
  item is attempted, not none.
\<close>

theorem process_data_error_budget_counterexample:
  "malformed (test_world test_heap) PNone \<and> (0::int) < int (length [PNone]) \<and>
   attempted_indices (new_log (test_world test_heap)
     (snd (snd (process_data ((DataProcessor partial_manager)\<lparr>max_errors := 0\<rparr>) [PNone]
        (test_world test_heap))))) = [0] \<and>
   attempted (new_log (test_world test_heap)
     (snd (snd (process_data ((DataProcessor partial_manager)\<lparr>max_errors := 0\<rparr>) [PNone]
        (test_world test_heap))))) \<noteq> nat 0"
  by (simp add: eval_defs)

theorem process_data_partial_results_witness:
  "recovery_batch \<noteq> [] \<and> no_faults (test_world test_heap) \<and>
   length (filter (malformed (test_world test_heap)) recovery_batch) = 2 \<and>
   (\<exists>outs. fst (process_data (DataProcessor partial_manager) recovery_batch (test_world test_heap))
        = Inr outs \<and> length outs = 2) \<and>
   error_count (fst (snd (process_data (DataProcessor partial_manager) recovery_batch
     (test_world test_heap)))) = 2"
proof -
  let ?W = "test_world test_heap"
  let ?X = "process_data (DataProcessor partial_manager) recovery_batch ?W"
  have h1: "recovery_batch \<noteq> []" by (simp add: recovery_batch_def)
  have h2: "\<forall>item\<in>set recovery_batch. allocated ?W item"
    by (simp add: recovery_batch_def allocated_def test_world_def test_heap_def)
  have h3: "no_faults ?W" by (simp add: no_faults_def test_world_def)
  have m: "length (filter (malformed ?W) recovery_batch) = 2"
    by (simp add: recovery_batch_def malformed_def isinstance_dict_def heap_lookup_def
        test_world_def test_heap_def dict_contains_def)
  then have h4: "length (filter (malformed ?W) recovery_batch) < 5" by simp
  have h5: "?X = (fst ?X, fst (snd ?X), snd (snd ?X))" by simp
  from process_data_partial_results [OF h1 h2 h3 h4 h5]
  have "(\<exists>outs. fst ?X = Inr outs \<and> length outs = 2) \<and> error_count (fst (snd ?X)) = 2"
    unfolding m by (auto simp: recovery_batch_def)
  then show ?thesis using h1 h3 m by simp
qed

theorem process_data_error_budget_witness:
  "\<exists>evs. process_data ((DataProcessor partial_manager)\<lparr>max_errors := 2\<rparr>)
            [PNone, PStr ''x'', PNone] (test_world test_heap) =
           (Inr [], (DataProcessor partial_manager)\<lparr>max_errors := 2, error_count := 2\<rparr>,
            (test_world test_heap)\<lparr>log := log (test_world test_heap) @ evs @ [TooManyErrors 2]\<rparr>) \<and>
           attempted_indices evs = [0, 1] \<and> failures evs = 2"
  using process_data_error_budget [of "[PNone, PStr ''x'', PNone]" "test_world test_heap" 2 partial_manager]
  by (simp add: malformed_def isinstance_dict_def eval_nat_numeral)

theorem error_count_cumulative_witness:
  "cumulative_failures (DataProcessor partial_manager) two_calls (test_world test_heap) = 5 \<and>
   error_count (fst (process_batches (DataProcessor partial_manager) two_calls (test_world test_heap)))
     = 5 \<and>
   cumulative_failures (DataProcessor partial_manager) [[PRef 0, PRef 2]] (test_world test_heap) = 0 \<and>
   error_count (fst (process_batches (DataProcessor partial_manager) [[PRef 0, PRef 2]]
     (test_world test_heap))) = 0"
proof -
  let ?W = "test_world test_heap"
  let ?P = "DataProcessor partial_manager"
  let ?X = "process_batches ?P two_calls ?W"
  let ?Y = "process_batches ?P [[PRef 0, PRef 2]] ?W"
  have run: "?X = (fst ?X, snd ?X)" "?Y = (fst ?Y, snd ?Y)" by simp_all
  have five: "cumulative_failures ?P two_calls ?W = 5"
    by (simp add: two_calls_def call_failures_def eval_defs)
  have none: "cumulative_failures ?P [[PRef 0, PRef 2]] ?W = 0"
    by (simp add: call_failures_def eval_defs)
  have zero: "error_count ?P = 0" by (simp add: DataProcessor_def)
  from error_count_cumulative [of partial_manager ?P two_calls ?W]
  have x: "error_count (fst ?X) = error_count ?P + int (cumulative_failures ?P two_calls ?W)"
    using run(1) by blast
  from error_count_cumulative [of partial_manager ?P "[[PRef 0, PRef 2]]" ?W]
  have y: "error_count (fst ?Y) = error_count ?P + int (cumulative_failures ?P [[PRef 0, PRef 2]] ?W)"
    using run(2) by blast
  show ?thesis using x y five none zero by simp
qed

theorem process_data_never_mutates_witness:
  "fst (process_data (DataProcessor partial_manager) recovery_batch (test_world test_heap))
     = Inr [PRef 3, PRef 4] \<and>
   prefix (heap (test_world test_heap))
     (heap (snd (snd (process_data (DataProcessor partial_manager) recovery_batch
        (test_world test_heap))))) \<and>
   (\<exists>succ. subseq succ recovery_batch \<and>
      list_all2 (is_processed_copy (test_world test_heap)
          (snd (snd (process_data (DataProcessor partial_manager) recovery_batch
             (test_world test_heap)))))
        [PRef 3, PRef 4] succ)"
proof -
  let ?W = "test_world test_heap"
  let ?X = "process_data (DataProcessor partial_manager) recovery_batch ?W"
  have h1: "\<forall>item\<in>set recovery_batch. allocated ?W item"
    by (simp add: recovery_batch_def allocated_def test_world_def test_heap_def)
  have h2: "?X = (fst ?X, fst (snd ?X), snd (snd ?X))" by simp
  have r: "fst ?X = Inr [PRef 3, PRef 4]"
    by (simp add: eval_defs)
  from process_data_never_mutates [OF h1 h2] r
  show ?thesis by simp
qed


end
